theory Spec2Isabelle
  imports Main "HOL-Library.Sublist"
begin

section \<open>Python values used by larbatch\<close>

text \<open>
  A Python \<open>str\<close> is a \<open>string\<close>; a character is a code point below 256.
  Exceptions are values of \<open>py_error\<close>; a function that can raise returns
  \<open>py_error + 'a\<close> with \<open>Inl\<close> for the exception.
\<close>

datatype py_error =
    ValueError
  | TypeError
  | IndexError
  | KeyError
  | RuntimeError string
  | IFDHError "string list" int string string
  | OSError
  | UnicodeDecodeError
  | SamError string

subsection \<open>Character classes\<close>

text \<open>\<open>str.isspace\<close> on code points below 256.\<close>

definition isspace :: "char \<Rightarrow> bool" where
  "isspace c \<longleftrightarrow>
     c = CHR 0x09 \<or> c = CHR 0x0A \<or> c = CHR 0x0B \<or> c = CHR 0x0C \<or> c = CHR 0x0D \<or>
     c = CHR 0x1C \<or> c = CHR 0x1D \<or> c = CHR 0x1E \<or> c = CHR 0x1F \<or> c = CHR 0x20 \<or>
     c = CHR 0x85 \<or> c = CHR 0xA0"

text \<open>The decimal digits \<open>0\<close> to \<open>9\<close>, the only digits \<open>int\<close> reads.\<close>

definition isdecimal :: "char \<Rightarrow> bool" where
  "isdecimal c \<longleftrightarrow> 48 \<le> (of_char c :: nat) \<and> (of_char c :: nat) \<le> 57"

text \<open>
  \<open>str.isdigit\<close> on one character: the decimal digits and the superscript digits
  (code points B2, B3 and B9), which \<open>int\<close> refuses.
\<close>

definition isdigit_char :: "char \<Rightarrow> bool" where
  "isdigit_char c \<longleftrightarrow> isdecimal c \<or> c = CHR 0xB2 \<or> c = CHR 0xB3 \<or> c = CHR 0xB9"


subsection \<open>String methods\<close>

text \<open>\<open>s.strip()\<close>.\<close>

definition strip :: "string \<Rightarrow> string" where
  "strip s = rev (dropWhile isspace (rev (dropWhile isspace s)))"

text \<open>\<open>s.startswith(p)\<close>.\<close>

definition startswith :: "string \<Rightarrow> string \<Rightarrow> bool" where
  "startswith s p \<longleftrightarrow> take (length p) s = p"


text \<open>\<open>s.split()\<close>: the maximal runs of characters that are not whitespace.\<close>

fun split_ws :: "string \<Rightarrow> string list" where
  "split_ws [] = []"
| "split_ws (c # cs) =
     (if isspace c then split_ws cs
      else if cs = [] \<or> isspace (hd cs) then [c] # split_ws cs
      else (case split_ws cs of
              [] \<Rightarrow> [[c]]
            | w # ws \<Rightarrow> (c # w) # ws))"

text \<open>\<open>s.find(sub)\<close>: the index of the first occurrence, or \<open>-1\<close>.\<close>

fun find_index :: "string \<Rightarrow> string \<Rightarrow> nat option" where
  "find_index sub [] = (if sub = [] then Some 0 else None)"
| "find_index sub (c # cs) =
     (if prefix sub (c # cs) then Some 0 else map_option Suc (find_index sub cs))"

definition find :: "string \<Rightarrow> string \<Rightarrow> int" where
  "find s sub = (case find_index sub s of None \<Rightarrow> - 1 | Some n \<Rightarrow> int n)"

text \<open>
  \<open>s.replace(old, new)\<close> for a non-empty \<open>old\<close>: the occurrences are replaced from
  left to right and do not overlap.
\<close>

function replace :: "string \<Rightarrow> string \<Rightarrow> string \<Rightarrow> string" where
  "replace old new [] = []"
| "replace old new (c # cs) =
     (if old \<noteq> [] \<and> prefix old (c # cs)
      then new @ replace old new (drop (length old) (c # cs))
      else c # replace old new cs)"
  by pat_completeness auto
termination
  by (relation "measure (\<lambda>(old, new, s). length s)") (auto simp: neq_Nil_conv)

text \<open>
  \<open>int(s)\<close> for a string. The whitespace that \<open>int\<close> drops around the number is not
  that of \<open>str.strip\<close>: the separators U+001C to U+001F stay and make the string
  unreadable. A sign may lead; the rest is decimal digits, where one underscore may stand
  between two digits. A number of more than \<open>max_str_digits\<close> digits is refused; 4300
  is the default of \<open>sys.int_info\<close>. Anything that \<open>int\<close> cannot read raises
  ValueError.
\<close>

definition int_space :: "char \<Rightarrow> bool" where
  "int_space c \<longleftrightarrow>
     c = CHR 0x09 \<or> c = CHR 0x0A \<or> c = CHR 0x0B \<or> c = CHR 0x0C \<or> c = CHR 0x0D \<or>
     c = CHR 0x20 \<or> c = CHR 0x85 \<or> c = CHR 0xA0"

definition int_strip :: "string \<Rightarrow> string" where
  "int_strip s = rev (dropWhile int_space (rev (dropWhile int_space s)))"

fun valid_digits :: "string \<Rightarrow> bool" where
  "valid_digits [] = False"
| "valid_digits [c] = isdecimal c"
| "valid_digits (c # d # cs) =
     (isdecimal c \<and> (if d = CHR ''_'' then valid_digits cs else valid_digits (d # cs)))"

definition max_str_digits :: nat where
  "max_str_digits = 4300"

definition digit_value :: "char \<Rightarrow> int" where
  "digit_value c = int (of_char c) - 48"

definition decimal_value :: "string \<Rightarrow> int" where
  "decimal_value s = foldl (\<lambda>acc c. 10 * acc + digit_value c) 0 s"

definition py_int :: "string \<Rightarrow> py_error + int" where
  "py_int s =
     (let t = int_strip s;
          (neg, body) = (case t of
                           [] \<Rightarrow> (False, t)
                         | c # cs \<Rightarrow> if c = CHR ''-'' then (True, cs)
                                     else if c = CHR ''+'' then (False, cs)
                                     else (False, t));
          digits = filter (\<lambda>c. c \<noteq> CHR ''_'') body
      in if valid_digits body \<and> length digits \<le> max_str_digits
         then Inr (if neg then - decimal_value digits else decimal_value digits)
         else Inl ValueError)"

section \<open>larbatch_utilities: dCache paths\<close>

definition dcache_server :: string where
  "dcache_server = ''fndcadoor.fnal.gov''"

text \<open>
  \<open>dcache_path\<close> has one \<open>return\<close>, under its \<open>if\<close>; on the other branch the
  function falls off its end and Python returns \<open>None\<close>.
\<close>

definition dcache_path :: "string \<Rightarrow> string option" where
  "dcache_path path =
     (if startswith path ''/pnfs/'' \<and> \<not> startswith path ''/pnfs/fnal.gov/usr/''
      then Some (''/pnfs/fnal.gov/usr/'' @ drop 6 path)
      else None)"

definition xrootd_server_port :: string where
  "xrootd_server_port = dcache_server @ '':1094''"

text \<open>\<open>str + x\<close> where \<open>x\<close> is a string or \<open>None\<close>: the latter raises TypeError.\<close>

definition str_add :: "string \<Rightarrow> string option \<Rightarrow> py_error + string" where
  "str_add s x = (case x of None \<Rightarrow> Inl TypeError | Some t \<Rightarrow> Inr (s @ t))"

definition xrootd_uri :: "string \<Rightarrow> py_error + string" where
  "xrootd_uri path =
     (if startswith path ''/pnfs/''
      then str_add (''root://'' @ xrootd_server_port) (dcache_path path)
      else Inr path)"

definition gridftp_uri :: "string \<Rightarrow> py_error + string" where
  "gridftp_uri path =
     (if startswith path ''/pnfs/''
      then str_add (''gsiftp://'' @ dcache_server) (dcache_path path)
      else Inr path)"

lemma startswith_append: "startswith (p @ s) p"
  by (simp add: startswith_def)

lemma startswith_shorter:
  "startswith s (p @ q) \<Longrightarrow> startswith s p"
  unfolding startswith_def
  by (metis append_eq_conv_conj append_take_drop_id append_assoc)

text \<open>
  Claim C9. \<open>dcache_path\<close> returns \<open>None\<close> (and so not the path it was given) for
  every path that does not start with \<open>/pnfs/\<close> and for every path that starts with
  \<open>/pnfs/fnal.gov/usr/\<close>; for the latter paths \<open>xrootd_uri\<close> and \<open>gridftp_uri\<close>
  raise TypeError.
\<close>

theorem dcache_path_none:
  "(\<not> startswith path ''/pnfs/'' \<longrightarrow>
      dcache_path path = None \<and> dcache_path path \<noteq> Some path) \<and>
   (startswith path ''/pnfs/fnal.gov/usr/'' \<longrightarrow>
      dcache_path path = None \<and> dcache_path path \<noteq> Some path \<and>
      xrootd_uri path = Inl TypeError \<and> gridftp_uri path = Inl TypeError)"
proof -
  have pre: "startswith path ''/pnfs/''" if "startswith path ''/pnfs/fnal.gov/usr/''"
    using that startswith_shorter [of path "''/pnfs/''" "''fnal.gov/usr/''"] by simp
  show ?thesis
    using pre by (auto simp: dcache_path_def xrootd_uri_def gridftp_uri_def str_add_def)
qed

theorem dcache_path_none_witness:
  "\<not> startswith ''/tmp/x.root'' ''/pnfs/'' \<and> dcache_path ''/tmp/x.root'' = None \<and>
   startswith ''/pnfs/fnal.gov/usr/uboone/x.root'' ''/pnfs/fnal.gov/usr/'' \<and>
   dcache_path ''/pnfs/fnal.gov/usr/uboone/x.root'' = None \<and>
   xrootd_uri ''/pnfs/fnal.gov/usr/uboone/x.root'' = Inl TypeError \<and>
   gridftp_uri ''/pnfs/fnal.gov/usr/uboone/x.root'' = Inl TypeError"
proof -
  have a: "\<not> startswith ''/tmp/x.root'' ''/pnfs/''"
    by (simp add: startswith_def)
  have b: "startswith ''/pnfs/fnal.gov/usr/uboone/x.root'' ''/pnfs/fnal.gov/usr/''"
    by (simp add: startswith_def)
  show ?thesis
    using a b dcache_path_none [of "''/tmp/x.root''"]
      dcache_path_none [of "''/pnfs/fnal.gov/usr/uboone/x.root''"]
    by blast
qed

section \<open>project_utilities: parseInt\<close>








lemma isdigit_char_not_space: "isdigit_char c \<Longrightarrow> \<not> isspace c"
  by (auto simp: isdigit_char_def isdecimal_def isspace_def)


lemma strip_subset: "set (strip s) \<subseteq> set s"
  unfolding strip_def
  by (metis set_dropWhileD set_rev subsetI)







lemma int_strip_prefix:
  "\<exists>w. dropWhile int_space t = int_strip t @ w"
proof -
  let ?u = "dropWhile int_space t"
  have "rev ?u = takeWhile int_space (rev ?u) @ dropWhile int_space (rev ?u)"
    by simp
  then have "?u = rev (dropWhile int_space (rev ?u)) @ rev (takeWhile int_space (rev ?u))"
    by (metis rev_append rev_rev_ident)
  then show ?thesis
    unfolding int_strip_def by blast
qed

lemma int_strip_ends:
  assumes "int_strip t \<noteq> []"
  shows "\<not> int_space (hd (int_strip t))" "\<not> int_space (last (int_strip t))"
proof -
  let ?u = "dropWhile int_space t"
  obtain w where u: "?u = int_strip t @ w"
    using int_strip_prefix by blast
  with assms have "?u \<noteq> []" "hd ?u = hd (int_strip t)"
    by auto
  then show "\<not> int_space (hd (int_strip t))"
    using hd_dropWhile [of int_space t] by auto
  have "dropWhile int_space (rev ?u) \<noteq> []"
    using assms by (simp add: int_strip_def)
  then have "\<not> int_space (hd (dropWhile int_space (rev ?u)))"
    by (rule hd_dropWhile)
  then show "\<not> int_space (last (int_strip t))"
    using assms by (simp add: int_strip_def last_rev)
qed





































section \<open>larbatch_utilities: the ifdh wrappers\<close>

text \<open>
  What the wrappers read from outside the program is a \<open>world\<close>: the host name, the
  user name, and the outcome of running a command in an environment. A command that cannot
  be started raises OSError in \<open>Popen\<close> (\<open>None\<close>); one that ran gives its return code and its
  two output streams, each \<open>None\<close> when its bytes do not decode to text. A subprocess
  ended by the timeout is one that finished with the return code of its termination.
\<close>

type_synonym environment = "string \<rightharpoonup> string"

type_synonym job_result = "int \<times> string option \<times> string option"

record world =
  hostname :: string
  username :: string
  popen :: "string list \<Rightarrow> environment \<Rightarrow> job_result option"

text \<open>The module's globals that the wrappers touch, and \<open>os.environ\<close>.\<close>

record process_state =
  environ :: environment
  token_ok :: bool

text \<open>\<open>s.lower()\<close> on code points below 256.\<close>

definition lower_char :: "char \<Rightarrow> char" where
  "lower_char c =
     (let n = (of_char c :: nat)
      in if (65 \<le> n \<and> n \<le> 90) \<or> (192 \<le> n \<and> n \<le> 222 \<and> n \<noteq> 215)
         then char_of (n + 32) else c)"

definition lower :: "string \<Rightarrow> string" where
  "lower s = map lower_char s"

definition get_experiment :: "world \<Rightarrow> environment \<Rightarrow> py_error + string" where
  "get_experiment w env =
     (let exp = (case env ''EXPERIMENT'' of
                   Some v \<Rightarrow> v
                 | None \<Rightarrow> (case env ''SAM_EXPERIMENT'' of Some v \<Rightarrow> v | None \<Rightarrow> ''''));
          exp = (if exp = ''''
                 then (let n = find (hostname w) ''gpvm''
                       in if n > 0 then take (nat n) (hostname w) else exp)
                 else exp)
      in if exp = '''' then Inl (RuntimeError ''Unable to determine experiment.'')
         else Inr exp)"

definition get_role :: "world \<Rightarrow> environment \<Rightarrow> py_error + string" where
  "get_role w env =
     (case env ''ROLE'' of
        Some v \<Rightarrow> Inr v
      | None \<Rightarrow>
          (case get_experiment w env of
             Inl e \<Rightarrow> Inl e
           | Inr exp \<Rightarrow>
               Inr (if username w = exp @ ''pro'' then ''Production'' else ''Analysis'')))"

text \<open>
  \<open>subprocess.check_call\<close> inside \<open>try\<close> / \<open>except\<close>: the flag is set when the command
  ran and returned zero.
\<close>

definition check_call_ok :: "world \<Rightarrow> string list \<Rightarrow> environment \<Rightarrow> bool" where
  "check_call_ok w cmd env =
     (case popen w cmd env of None \<Rightarrow> False | Some (rc, out, err) \<Rightarrow> rc = 0)"

definition get_token :: "world \<Rightarrow> process_state \<Rightarrow> (py_error + bool) \<times> process_state" where
  "get_token w st0 =
     (let st = st0\<lparr>token_ok := False\<rparr>
      in case get_role w (environ st) of
           Inl e \<Rightarrow> (Inl e, st)
         | Inr r \<Rightarrow>
             (let role = lower r
              in case get_experiment w (environ st) of
                   Inl e \<Rightarrow> (Inl e, st)
                 | Inr exp \<Rightarrow>
                     (let cmd = [''htgettoken'', ''-a'', ''htvaultprod.fnal.gov'', ''-i'', exp];
                          cmd = (if role = ''production'' then cmd @ [''-r'', role] else cmd);
                          ok = check_call_ok w cmd (environ st)
                      in (Inr ok, st\<lparr>token_ok := ok\<rparr>))))"

definition test_token :: "world \<Rightarrow> process_state \<Rightarrow> (py_error + bool) \<times> process_state" where
  "test_token w st0 =
     (if \<not> token_ok st0 then
        (let st = st0\<lparr>token_ok := check_call_ok w [''httokendecode''] (environ st0)\<rparr>
         in if \<not> token_ok st then
              (case get_token w st of
                 (Inl e, st') \<Rightarrow> (Inl e, st')
               | (Inr ok, st') \<Rightarrow> (Inr (token_ok st'), st'))
            else (Inr (token_ok st), st))
      else (Inr (token_ok st0), st0))"

text \<open>
  The first block of every wrapper: the two X509 variables are saved in \<open>save_vars\<close> and
  deleted from the environment. The last block writes \<open>save_vars\<close> back.
\<close>

fun save_and_delete ::
  "string list \<Rightarrow> environment \<Rightarrow> environment \<Rightarrow> environment \<times> environment" where
  "save_and_delete [] save_vars env = (save_vars, env)"
| "save_and_delete (var # vars) save_vars env =
     (case env var of
        Some v \<Rightarrow> save_and_delete vars (save_vars(var \<mapsto> v)) (env(var := None))
      | None \<Rightarrow> save_and_delete vars save_vars env)"

definition x509_vars :: "string list" where
  "x509_vars = [''X509_USER_CERT'', ''X509_USER_KEY'']"

text \<open>\<open>for var in save_vars.keys(): os.environ[var] = save_vars[var]\<close>.\<close>

definition restore :: "environment \<Rightarrow> environment \<Rightarrow> environment" where
  "restore save_vars env = env ++ save_vars"

text \<open>
  The middle block: start the command, wait for it, and read the return code and the two
  streams from the queue; \<open>convert_str\<close> decodes a stream and raises where it cannot.
\<close>

definition convert_str :: "string option \<Rightarrow> py_error + string" where
  "convert_str s = (case s of None \<Rightarrow> Inl UnicodeDecodeError | Some t \<Rightarrow> Inr t)"

definition run_job ::
  "world \<Rightarrow> string list \<Rightarrow> environment \<Rightarrow> py_error + int \<times> string \<times> string" where
  "run_job w cmd env =
     (case popen w cmd env of
        None \<Rightarrow> Inl OSError
      | Some (rc, out, err) \<Rightarrow>
          (case convert_str out of
             Inl e \<Rightarrow> Inl e
           | Inr jobout \<Rightarrow>
               (case convert_str err of
                  Inl e \<Rightarrow> Inl e
                | Inr joberr \<Rightarrow> Inr (rc, jobout, joberr))))"


text \<open>\<open>'%d' % n\<close> and \<open>'%o' % n\<close>.\<close>

function digits_base :: "nat \<Rightarrow> nat \<Rightarrow> string" where
  "digits_base b n =
     (if n < b \<or> b < 2 then [char_of (48 + n)]
      else digits_base b (n div b) @ [char_of (48 + n mod b)])"
  by pat_completeness auto
termination
  by (relation "measure snd") auto

definition format_int :: "nat \<Rightarrow> int \<Rightarrow> string" where
  "format_int b n = (if n < 0 then ''-'' @ digits_base b (nat (- n)) else digits_base b (nat n))"

text \<open>\<open>s.splitlines()\<close> on code points below 256.\<close>

definition is_linebreak :: "char \<Rightarrow> bool" where
  "is_linebreak c \<longleftrightarrow>
     c = CHR 0x0A \<or> c = CHR 0x0B \<or> c = CHR 0x0C \<or> c = CHR 0x0D \<or>
     c = CHR 0x1C \<or> c = CHR 0x1D \<or> c = CHR 0x1E \<or> c = CHR 0x85"

fun splitlines_from :: "string \<Rightarrow> string \<Rightarrow> string list" where
  "splitlines_from line [] = (if line = [] then [] else [line])"
| "splitlines_from line [c] = (if is_linebreak c then [line] else [line @ [c]])"
| "splitlines_from line (c # d # cs) =
     (if c = CHR 0x0D \<and> d = CHR 0x0A then line # splitlines_from [] cs
      else if is_linebreak c then line # splitlines_from [] (d # cs)
      else splitlines_from (line @ [c]) (d # cs))"

definition splitlines :: "string \<Rightarrow> string list" where
  "splitlines s = splitlines_from [] s"

text \<open>
  The nine wrappers. Each returns its value or the exception it raises, and the state it
  leaves. Eight of them restore the environment and raise IFDHError on a return code
  other than zero; \<open>ifdh_chmod\<close> prints a warning there and goes on.
\<close>

definition ifdh_cp ::
  "world \<Rightarrow> string \<Rightarrow> string \<Rightarrow> process_state \<Rightarrow> (py_error + unit) \<times> process_state" where
  "ifdh_cp w source destination st0 =
     (case test_token w st0 of
        (Inl e, st) \<Rightarrow> (Inl e, st)
      | (Inr ok, st) \<Rightarrow>
          (let (save_vars, env) = save_and_delete x509_vars Map.empty (environ st);
               st = st\<lparr>environ := env\<rparr>;
               cmd = [''ifdh'', ''cp'', source, destination]
           in case run_job w cmd (environ st) of
                Inl e \<Rightarrow> (Inl e, st)
              | Inr (rc, jobout, joberr) \<Rightarrow>
                  if rc \<noteq> 0
                  then (Inl (IFDHError cmd rc jobout joberr),
                        st\<lparr>environ := restore save_vars (environ st)\<rparr>)
                  else (Inr (), st\<lparr>environ := restore save_vars (environ st)\<rparr>)))"

definition ifdh_ls ::
  "world \<Rightarrow> string \<Rightarrow> int \<Rightarrow> process_state \<Rightarrow> (py_error + string list) \<times> process_state" where
  "ifdh_ls w path depth st0 =
     (case test_token w st0 of
        (Inl e, st) \<Rightarrow> (Inl e, st)
      | (Inr ok, st) \<Rightarrow>
          (let (save_vars, env) = save_and_delete x509_vars Map.empty (environ st);
               st = st\<lparr>environ := env\<rparr>;
               cmd = [''ifdh'', ''ls'', path, format_int 10 depth]
           in case run_job w cmd (environ st) of
                Inl e \<Rightarrow> (Inl e, st)
              | Inr (rc, jobout, joberr) \<Rightarrow>
                  if rc \<noteq> 0
                  then (Inl (IFDHError cmd rc jobout joberr),
                        st\<lparr>environ := restore save_vars (environ st)\<rparr>)
                  else (Inr (splitlines jobout),
                        st\<lparr>environ := restore save_vars (environ st)\<rparr>)))"

definition ifdh_ll ::
  "world \<Rightarrow> string \<Rightarrow> int \<Rightarrow> process_state \<Rightarrow> (py_error + string list) \<times> process_state" where
  "ifdh_ll w path depth st0 =
     (case test_token w st0 of
        (Inl e, st) \<Rightarrow> (Inl e, st)
      | (Inr ok, st) \<Rightarrow>
          (let (save_vars, env) = save_and_delete x509_vars Map.empty (environ st);
               st = st\<lparr>environ := env\<rparr>;
               cmd = [''ifdh'', ''ll'', path, format_int 10 depth]
           in case run_job w cmd (environ st) of
                Inl e \<Rightarrow> (Inl e, st)
              | Inr (rc, jobout, joberr) \<Rightarrow>
                  if rc \<noteq> 0
                  then (Inl (IFDHError cmd rc jobout joberr),
                        st\<lparr>environ := restore save_vars (environ st)\<rparr>)
                  else (Inr (splitlines jobout),
                        st\<lparr>environ := restore save_vars (environ st)\<rparr>)))"

definition ifdh_mkdir ::
  "world \<Rightarrow> string \<Rightarrow> process_state \<Rightarrow> (py_error + unit) \<times> process_state" where
  "ifdh_mkdir w path st0 =
     (case test_token w st0 of
        (Inl e, st) \<Rightarrow> (Inl e, st)
      | (Inr ok, st) \<Rightarrow>
          (let (save_vars, env) = save_and_delete x509_vars Map.empty (environ st);
               st = st\<lparr>environ := env\<rparr>;
               cmd = [''ifdh'', ''mkdir'', path]
           in case run_job w cmd (environ st) of
                Inl e \<Rightarrow> (Inl e, st)
              | Inr (rc, jobout, joberr) \<Rightarrow>
                  if rc \<noteq> 0
                  then (Inl (IFDHError cmd rc jobout joberr),
                        st\<lparr>environ := restore save_vars (environ st)\<rparr>)
                  else (Inr (), st\<lparr>environ := restore save_vars (environ st)\<rparr>)))"

definition ifdh_mkdir_p ::
  "world \<Rightarrow> string \<Rightarrow> process_state \<Rightarrow> (py_error + unit) \<times> process_state" where
  "ifdh_mkdir_p w path st0 =
     (case test_token w st0 of
        (Inl e, st) \<Rightarrow> (Inl e, st)
      | (Inr ok, st) \<Rightarrow>
          (let (save_vars, env) = save_and_delete x509_vars Map.empty (environ st);
               st = st\<lparr>environ := env\<rparr>;
               cmd = [''ifdh'', ''mkdir_p'', path]
           in case run_job w cmd (environ st) of
                Inl e \<Rightarrow> (Inl e, st)
              | Inr (rc, jobout, joberr) \<Rightarrow>
                  if rc \<noteq> 0
                  then (Inl (IFDHError cmd rc jobout joberr),
                        st\<lparr>environ := restore save_vars (environ st)\<rparr>)
                  else (Inr (), st\<lparr>environ := restore save_vars (environ st)\<rparr>)))"

definition ifdh_rmdir ::
  "world \<Rightarrow> string \<Rightarrow> process_state \<Rightarrow> (py_error + unit) \<times> process_state" where
  "ifdh_rmdir w path st0 =
     (case test_token w st0 of
        (Inl e, st) \<Rightarrow> (Inl e, st)
      | (Inr ok, st) \<Rightarrow>
          (let (save_vars, env) = save_and_delete x509_vars Map.empty (environ st);
               st = st\<lparr>environ := env\<rparr>;
               cmd = [''ifdh'', ''rmdir'', path]
           in case run_job w cmd (environ st) of
                Inl e \<Rightarrow> (Inl e, st)
              | Inr (rc, jobout, joberr) \<Rightarrow>
                  if rc \<noteq> 0
                  then (Inl (IFDHError cmd rc jobout joberr),
                        st\<lparr>environ := restore save_vars (environ st)\<rparr>)
                  else (Inr (), st\<lparr>environ := restore save_vars (environ st)\<rparr>)))"

definition ifdh_chmod ::
  "world \<Rightarrow> string \<Rightarrow> int \<Rightarrow> process_state \<Rightarrow> (py_error + unit) \<times> process_state" where
  "ifdh_chmod w path mode st0 =
     (case test_token w st0 of
        (Inl e, st) \<Rightarrow> (Inl e, st)
      | (Inr ok, st) \<Rightarrow>
          (let (save_vars, env) = save_and_delete x509_vars Map.empty (environ st);
               st = st\<lparr>environ := env\<rparr>;
               cmd = [''ifdh'', ''chmod'', format_int 8 mode, path]
           in case run_job w cmd (environ st) of
                Inl e \<Rightarrow> (Inl e, st)
              | Inr (rc, jobout, joberr) \<Rightarrow>
                  (Inr (), st\<lparr>environ := restore save_vars (environ st)\<rparr>)))"

definition ifdh_mv ::
  "world \<Rightarrow> string \<Rightarrow> string \<Rightarrow> process_state \<Rightarrow> (py_error + unit) \<times> process_state" where
  "ifdh_mv w src dest st0 =
     (case test_token w st0 of
        (Inl e, st) \<Rightarrow> (Inl e, st)
      | (Inr ok, st) \<Rightarrow>
          (let (save_vars, env) = save_and_delete x509_vars Map.empty (environ st);
               st = st\<lparr>environ := env\<rparr>;
               cmd = [''ifdh'', ''mv'', src, dest]
           in case run_job w cmd (environ st) of
                Inl e \<Rightarrow> (Inl e, st)
              | Inr (rc, jobout, joberr) \<Rightarrow>
                  if rc \<noteq> 0
                  then (Inl (IFDHError cmd rc jobout joberr),
                        st\<lparr>environ := restore save_vars (environ st)\<rparr>)
                  else (Inr (), st\<lparr>environ := restore save_vars (environ st)\<rparr>)))"

definition ifdh_rm ::
  "world \<Rightarrow> string \<Rightarrow> process_state \<Rightarrow> (py_error + unit) \<times> process_state" where
  "ifdh_rm w path st0 =
     (case test_token w st0 of
        (Inl e, st) \<Rightarrow> (Inl e, st)
      | (Inr ok, st) \<Rightarrow>
          (let (save_vars, env) = save_and_delete x509_vars Map.empty (environ st);
               st = st\<lparr>environ := env\<rparr>;
               cmd = [''ifdh'', ''rm'', path]
           in case run_job w cmd (environ st) of
                Inl e \<Rightarrow> (Inl e, st)
              | Inr (rc, jobout, joberr) \<Rightarrow>
                  if rc \<noteq> 0
                  then (Inl (IFDHError cmd rc jobout joberr),
                        st\<lparr>environ := restore save_vars (environ st)\<rparr>)
                  else (Inr (), st\<lparr>environ := restore save_vars (environ st)\<rparr>)))"

text \<open>A call of one of the nine wrappers, so that a statement can range over them.\<close>

datatype ifdh_call =
    Cp string string
  | Ls string int
  | Ll string int
  | Mkdir string
  | Mkdir_p string
  | Rmdir string
  | Chmod string int
  | Mv string string
  | Rm string

datatype ifdh_value = NoValue | Lines "string list"

definition returning ::
  "('a \<Rightarrow> ifdh_value) \<Rightarrow> (py_error + 'a) \<times> process_state \<Rightarrow>
   (py_error + ifdh_value) \<times> process_state" where
  "returning f r = (map_sum id f (fst r), snd r)"

fun ifdh :: "world \<Rightarrow> ifdh_call \<Rightarrow> process_state \<Rightarrow> (py_error + ifdh_value) \<times> process_state" where
  "ifdh w (Cp source destination) st = returning (\<lambda>u. NoValue) (ifdh_cp w source destination st)"
| "ifdh w (Ls path depth) st = returning Lines (ifdh_ls w path depth st)"
| "ifdh w (Ll path depth) st = returning Lines (ifdh_ll w path depth st)"
| "ifdh w (Mkdir path) st = returning (\<lambda>u. NoValue) (ifdh_mkdir w path st)"
| "ifdh w (Mkdir_p path) st = returning (\<lambda>u. NoValue) (ifdh_mkdir_p w path st)"
| "ifdh w (Rmdir path) st = returning (\<lambda>u. NoValue) (ifdh_rmdir w path st)"
| "ifdh w (Chmod path mode) st = returning (\<lambda>u. NoValue) (ifdh_chmod w path mode st)"
| "ifdh w (Mv src dest) st = returning (\<lambda>u. NoValue) (ifdh_mv w src dest st)"
| "ifdh w (Rm path) st = returning (\<lambda>u. NoValue) (ifdh_rm w path st)"

text \<open>The command line a wrapper starts.\<close>

fun command :: "ifdh_call \<Rightarrow> string list" where
  "command (Cp source destination) = [''ifdh'', ''cp'', source, destination]"
| "command (Ls path depth) = [''ifdh'', ''ls'', path, format_int 10 depth]"
| "command (Ll path depth) = [''ifdh'', ''ll'', path, format_int 10 depth]"
| "command (Mkdir path) = [''ifdh'', ''mkdir'', path]"
| "command (Mkdir_p path) = [''ifdh'', ''mkdir_p'', path]"
| "command (Rmdir path) = [''ifdh'', ''rmdir'', path]"
| "command (Chmod path mode) = [''ifdh'', ''chmod'', format_int 8 mode, path]"
| "command (Mv src dest) = [''ifdh'', ''mv'', src, dest]"
| "command (Rm path) = [''ifdh'', ''rm'', path]"

fun is_chmod :: "ifdh_call \<Rightarrow> bool" where
  "is_chmod (Chmod path mode) = True"
| "is_chmod c = False"

definition is_IFDHError :: "py_error \<Rightarrow> bool" where
  "is_IFDHError e = (case e of IFDHError cmd rc out err \<Rightarrow> True | _ \<Rightarrow> False)"

definition raises :: "(py_error + 'a) \<times> process_state \<Rightarrow> bool" where
  "raises r = (case fst r of Inl e \<Rightarrow> True | Inr v \<Rightarrow> False)"

text \<open>
  The environment in which a wrapper starts its command: the one \<open>test_token\<close> leaves,
  without the two X509 variables.
\<close>

definition job_environment :: "world \<Rightarrow> process_state \<Rightarrow> environment" where
  "job_environment w st =
     snd (save_and_delete x509_vars Map.empty (environ (snd (test_token w st))))"

text \<open>A world in which every command runs and returns 1, and a state that holds a token.\<close>

definition failing_world :: world where
  "failing_world =
     \<lparr>hostname = ''uboonegpvm01.fnal.gov'', username = ''alice'',
      popen = (\<lambda>cmd env. Some (1, Some [], Some ''failed''))\<rparr>"

definition passing_world :: world where
  "passing_world =
     \<lparr>hostname = ''uboonegpvm01.fnal.gov'', username = ''alice'',
      popen = (\<lambda>cmd env. Some (0, Some ''a.root'', Some []))\<rparr>"

definition sample_state :: process_state where
  "sample_state =
     \<lparr>environ = [''X509_USER_CERT'' \<mapsto> ''/tmp/cert.pem'', ''HOME'' \<mapsto> ''/home/alice''],
      token_ok = True\<rparr>"

lemma save_and_delete_restore:
  "save_and_delete vars save_vars env = (save_vars', env') \<Longrightarrow>
   dom save_vars \<inter> dom env = {} \<Longrightarrow>
   restore save_vars' env' = restore save_vars env \<and> dom save_vars' \<inter> dom env' = {}"
proof (induction vars arbitrary: save_vars env)
  case Nil
  then show ?case by simp
next
  case (Cons var vars)
  show ?case
  proof (cases "env var")
    case None
    with Cons show ?thesis by simp
  next
    case (Some v)
    let ?sv = "save_vars(var \<mapsto> v)" and ?env = "env(var := None)"
    from Cons.prems Some have rec: "save_and_delete vars ?sv ?env = (save_vars', env')"
      by simp
    have disj: "dom ?sv \<inter> dom ?env = {}"
      using Cons.prems(2) by auto
    have "var \<notin> dom save_vars"
      using Cons.prems(2) Some by auto
    then have eq: "restore ?sv ?env = restore save_vars env"
      using Some by (auto simp: restore_def map_add_def fun_eq_iff split: option.splits)
    from Cons.IH [OF rec disj] have 1: "restore save_vars' env' = restore ?sv ?env"
      and 2: "dom save_vars' \<inter> dom env' = {}" by blast+
    from 1 eq have "restore save_vars' env' = restore save_vars env" by (rule trans)
    with 2 show ?thesis by blast
  qed
qed

lemma restore_after_delete:
  "save_and_delete vars Map.empty env = (save_vars, env') \<Longrightarrow> restore save_vars env' = env"
  using save_and_delete_restore [of vars Map.empty env save_vars env']
  by (simp add: restore_def)

lemma get_token_environ: "environ (snd (get_token w st)) = environ st"
  by (simp add: get_token_def Let_def split: sum.splits)

lemma test_token_environ: "environ (snd (test_token w st)) = environ st"
  using get_token_environ [of w "st\<lparr>token_ok := check_call_ok w [''httokendecode''] (environ st)\<rparr>"]
  by (auto simp: test_token_def Let_def split: sum.splits prod.splits)

lemma get_token_error: "fst (get_token w st) = Inl e \<Longrightarrow> \<not> is_IFDHError e"
  by (auto simp: get_token_def get_role_def get_experiment_def Let_def is_IFDHError_def
      split: sum.splits option.splits if_splits)

lemma test_token_error: "fst (test_token w st) = Inl e \<Longrightarrow> \<not> is_IFDHError e"
  using get_token_error [of w "st\<lparr>token_ok := check_call_ok w [''httokendecode''] (environ st)\<rparr>" e]
  by (auto simp: test_token_def Let_def split: sum.splits prod.splits if_splits)

lemma run_job_error: "run_job w cmd env = Inl e \<Longrightarrow> \<not> is_IFDHError e"
  by (auto simp: run_job_def convert_str_def is_IFDHError_def split: option.splits sum.splits)

text \<open>What every wrapper does, read off its definition.\<close>

lemma ifdh_cases:
  assumes "ifdh w c st0 = (r, st')"
  shows "case test_token w st0 of
      (Inl e, st) \<Rightarrow> r = Inl e \<and> st' = st
    | (Inr ok, st) \<Rightarrow>
        (case save_and_delete x509_vars Map.empty (environ st) of
           (save_vars, env) \<Rightarrow>
             (case run_job w (command c) env of
                Inl e \<Rightarrow> r = Inl e \<and> st' = st\<lparr>environ := env\<rparr>
              | Inr (rc, jobout, joberr) \<Rightarrow>
                  st' = st \<and>
                  (if rc \<noteq> 0 \<and> \<not> is_chmod c
                   then r = Inl (IFDHError (command c) rc jobout joberr)
                   else \<exists>v. r = Inr v)))"
proof (cases "test_token w st0")
  case (Pair t st)
  show ?thesis
  proof (cases t)
    case (Inl e)
    with Pair assms show ?thesis
      by (cases c)
        (auto simp: returning_def ifdh_cp_def ifdh_ls_def ifdh_ll_def ifdh_mkdir_def
          ifdh_mkdir_p_def ifdh_rmdir_def ifdh_chmod_def ifdh_mv_def ifdh_rm_def)
  next
    case (Inr ok)
    obtain save_vars env where sd:
      "save_and_delete x509_vars Map.empty (environ st) = (save_vars, env)"
      by (cases "save_and_delete x509_vars Map.empty (environ st)")
    have restored: "st\<lparr>environ := restore save_vars env\<rparr> = st"
      using restore_after_delete [OF sd] by simp
    show ?thesis
    proof (cases "run_job w (command c) env")
      case e: (Inl e)
      with Pair Inr sd assms show ?thesis
        by (cases c)
          (auto simp: returning_def ifdh_cp_def ifdh_ls_def ifdh_ll_def ifdh_mkdir_def
            ifdh_mkdir_p_def ifdh_rmdir_def ifdh_chmod_def ifdh_mv_def ifdh_rm_def)
    next
      case j: (Inr job)
      obtain rc jobout joberr where job: "job = (rc, jobout, joberr)"
        by (cases job)
      with j Pair Inr sd restored assms show ?thesis
        by (cases c)
          (auto simp: returning_def ifdh_cp_def ifdh_ls_def ifdh_ll_def ifdh_mkdir_def
            ifdh_mkdir_p_def ifdh_rmdir_def ifdh_chmod_def ifdh_mv_def ifdh_rm_def)
    qed
  qed
qed

lemma ifdh_environ:
  assumes "ifdh w c st = (r, st')"
    and "(\<exists>v. r = Inr v) \<or> (\<exists>e. r = Inl e \<and> is_IFDHError e)"
  shows "environ st' = environ st"
proof (cases "test_token w st")
  case (Pair t st1)
  have env1: "environ st1 = environ st"
    using test_token_environ [of w st] Pair by simp
  show ?thesis
  proof (cases t)
    case (Inl e)
    with ifdh_cases [OF assms(1)] Pair have "r = Inl e" "st' = st1" by auto
    with env1 show ?thesis by simp
  next
    case (Inr ok)
    obtain save_vars env where sd:
      "save_and_delete x509_vars Map.empty (environ st1) = (save_vars, env)"
      by (cases "save_and_delete x509_vars Map.empty (environ st1)")
    show ?thesis
    proof (cases "run_job w (command c) env")
      case e: (Inl e)
      with ifdh_cases [OF assms(1)] Pair Inr sd have "r = Inl e" by simp
      with assms(2) run_job_error [OF e] show ?thesis by simp
    next
      case j: (Inr job)
      with ifdh_cases [OF assms(1)] Pair Inr sd have "st' = st1"
        by (cases job) simp
      with env1 show ?thesis by simp
    qed
  qed
qed

lemma run_job_finished:
  "popen w cmd env = Some (rc, Some jobout, Some joberr) \<Longrightarrow>
   run_job w cmd env = Inr (rc, jobout, joberr)"
  by (simp add: run_job_def convert_str_def)

text \<open>
  Claim C4, as the code has it. Where \<open>test_token\<close> returns and the ifdh command runs,
  finishes with return code \<open>rc\<close> and its output decodes: every wrapper but
  \<open>ifdh_chmod\<close> raises exactly when \<open>rc\<close> is not zero, and then it raises IFDHError;
  \<open>ifdh_chmod\<close> returns normally whatever \<open>rc\<close> is; on \<open>rc = 0\<close> every wrapper returns
  normally.
\<close>

theorem ifdh_raises_iff_nonzero:
  assumes "fst (test_token w st) = Inr ok"
    and "popen w (command c) (job_environment w st) = Some (rc, Some jobout, Some joberr)"
  shows "(\<not> is_chmod c \<longrightarrow> (raises (ifdh w c st) \<longleftrightarrow> rc \<noteq> 0)) \<and>
         (\<not> is_chmod c \<and> rc \<noteq> 0 \<longrightarrow>
            fst (ifdh w c st) = Inl (IFDHError (command c) rc jobout joberr)) \<and>
         (is_chmod c \<longrightarrow> \<not> raises (ifdh w c st)) \<and>
         (rc = 0 \<longrightarrow> \<not> raises (ifdh w c st))"
proof -
  obtain st1 where tt: "test_token w st = (Inr ok, st1)"
    using assms(1) by (cases "test_token w st") simp
  obtain save_vars env where sd:
    "save_and_delete x509_vars Map.empty (environ st1) = (save_vars, env)"
    by (cases "save_and_delete x509_vars Map.empty (environ st1)")
  have "job_environment w st = env"
    using tt sd by (simp add: job_environment_def)
  then have job: "run_job w (command c) env = Inr (rc, jobout, joberr)"
    using assms(2) run_job_finished by simp
  obtain r st' where res: "ifdh w c st = (r, st')"
    by (cases "ifdh w c st")
  from ifdh_cases [OF res] tt sd job
  have "if rc \<noteq> 0 \<and> \<not> is_chmod c
        then r = Inl (IFDHError (command c) rc jobout joberr) else \<exists>v. r = Inr v"
    by simp
  then show ?thesis
    using res by (auto simp: raises_def split: if_splits)
qed

theorem ifdh_raises_iff_nonzero_witness:
  "fst (test_token failing_world sample_state) = Inr True \<and>
   popen failing_world (command (Rm ''/pnfs/x'')) (job_environment failing_world sample_state)
     = Some (1, Some [], Some ''failed'') \<and>
   raises (ifdh failing_world (Rm ''/pnfs/x'') sample_state) \<and>
   fst (ifdh failing_world (Rm ''/pnfs/x'') sample_state)
     = Inl (IFDHError [''ifdh'', ''rm'', ''/pnfs/x''] 1 [] ''failed'') \<and>
   fst (test_token passing_world sample_state) = Inr True \<and>
   popen passing_world (command (Ls ''/pnfs/x'' 1)) (job_environment passing_world sample_state)
     = Some (0, Some ''a.root'', Some []) \<and>
   \<not> raises (ifdh passing_world (Ls ''/pnfs/x'' 1) sample_state)"
proof -
  have t1: "fst (test_token failing_world sample_state) = Inr True"
    by (simp add: test_token_def sample_state_def)
  have p1: "popen failing_world (command (Rm ''/pnfs/x''))
      (job_environment failing_world sample_state) = Some (1, Some [], Some ''failed'')"
    by (simp add: failing_world_def)
  have t2: "fst (test_token passing_world sample_state) = Inr True"
    by (simp add: test_token_def sample_state_def)
  have p2: "popen passing_world (command (Ls ''/pnfs/x'' 1))
      (job_environment passing_world sample_state) = Some (0, Some ''a.root'', Some [])"
    by (simp add: passing_world_def)
  show ?thesis
    using t1 p1 t2 p2 ifdh_raises_iff_nonzero [OF t1 p1] ifdh_raises_iff_nonzero [OF t2 p2]
    by simp
qed

text \<open>
  The claim as the spec states it fails at \<open>ifdh_chmod\<close>: the command finishes with
  return code 1 and the wrapper returns normally.
\<close>

theorem ifdh_chmod_counterexample:
  "popen failing_world (command (Chmod ''/pnfs/x'' 493))
     (job_environment failing_world sample_state) = Some (1, Some [], Some ''failed'') \<and>
   fst (ifdh_chmod failing_world ''/pnfs/x'' 493 sample_state) = Inr ()"
  by (simp add: failing_world_def ifdh_chmod_def test_token_def sample_state_def run_job_def
      convert_str_def split: prod.splits)

text \<open>
  Claim C7. For every wrapper and every starting environment, when the wrapper returns
  normally or raises IFDHError, the variables X509_USER_CERT and X509_USER_KEY are present
  or absent after the call as they were before it, with the same values.
\<close>

theorem ifdh_keeps_x509:
  assumes "ifdh w c st = (r, st')"
    and "(\<exists>v. r = Inr v) \<or> (\<exists>e. r = Inl e \<and> is_IFDHError e)"
  shows "environ st' ''X509_USER_CERT'' = environ st ''X509_USER_CERT'' \<and>
         environ st' ''X509_USER_KEY'' = environ st ''X509_USER_KEY''"
  using ifdh_environ [OF assms] by simp

theorem ifdh_keeps_x509_witness:
  "is_IFDHError (IFDHError [''ifdh'', ''rm'', ''/pnfs/x''] 1 [] ''failed'') \<and>
   fst (ifdh failing_world (Rm ''/pnfs/x'') sample_state)
     = Inl (IFDHError [''ifdh'', ''rm'', ''/pnfs/x''] 1 [] ''failed'') \<and>
   environ (snd (ifdh failing_world (Rm ''/pnfs/x'') sample_state)) ''X509_USER_CERT''
     = Some ''/tmp/cert.pem'' \<and>
   environ (snd (ifdh failing_world (Rm ''/pnfs/x'') sample_state)) ''X509_USER_KEY'' = None"
proof -
  have r: "fst (ifdh failing_world (Rm ''/pnfs/x'') sample_state)
      = Inl (IFDHError [''ifdh'', ''rm'', ''/pnfs/x''] 1 [] ''failed'')"
    by (simp add: failing_world_def ifdh_rm_def test_token_def sample_state_def run_job_def
        convert_str_def returning_def split: prod.splits)
  have i: "is_IFDHError (IFDHError [''ifdh'', ''rm'', ''/pnfs/x''] 1 [] ''failed'')"
    by (simp add: is_IFDHError_def)
  have e: "environ sample_state ''X509_USER_CERT'' = Some ''/tmp/cert.pem'' \<and>
      environ sample_state ''X509_USER_KEY'' = None"
    by (simp add: sample_state_def)
  obtain st' where s: "ifdh failing_world (Rm ''/pnfs/x'') sample_state
      = (Inl (IFDHError [''ifdh'', ''rm'', ''/pnfs/x''] 1 [] ''failed''), st')"
    using r by (cases "ifdh failing_world (Rm ''/pnfs/x'') sample_state") simp
  have "environ st' ''X509_USER_CERT'' = environ sample_state ''X509_USER_CERT'' \<and>
      environ st' ''X509_USER_KEY'' = environ sample_state ''X509_USER_KEY''"
    using i by (intro ifdh_keeps_x509 [OF s]) simp
  then show ?thesis
    using r i e s by simp
qed

section \<open>artroot_filter\<close>

text \<open>
  ROOT is not part of the repository, so what the script asks of it is a parameter:
  \<open>TFile.Open(f, 'read')\<close> gives a file object or a null pointer (\<open>None\<close>), a file
  object answers \<open>IsOpen\<close>, \<open>IsZombie\<close> and \<open>GetListOfKeys\<close> (the names of the keys, in
  order), \<open>Get\<close> gives an object for the name of a listed key, and an object answers
  \<open>InheritsFrom\<close>. Standard input is the list of its lines, as \<open>readlines\<close> returns it.
\<close>

record tobject =
  InheritsFrom :: "string \<Rightarrow> bool"

record tfile =
  IsOpen :: bool
  IsZombie :: bool
  GetListOfKeys :: "string list"
  Get :: "string \<Rightarrow> tobject"

text \<open>The loop over the keys of one file, carrying \<open>has_events\<close> and \<open>has_db\<close>.\<close>

fun scan_keys :: "tfile \<Rightarrow> string list \<Rightarrow> bool \<times> bool \<Rightarrow> bool \<times> bool" where
  "scan_keys root [] (has_events, has_db) = (has_events, has_db)"
| "scan_keys root (objname # keys) (has_events, has_db) =
     (let obj = Get root objname;
          has_events = (if objname = ''Events'' \<and> InheritsFrom obj ''TTree''
                        then True else has_events);
          has_db = (if objname = ''RootFileDB'' \<and> InheritsFrom obj ''TKey''
                    then True else has_db)
      in scan_keys root keys (has_events, has_db))"

text \<open>The loop over the lines of standard input; the result is what is printed.\<close>

fun filter_lines :: "(string \<Rightarrow> tfile option) \<Rightarrow> string list \<Rightarrow> string list" where
  "filter_lines TFile_Open [] = []"
| "filter_lines TFile_Open (line # lines) =
     (let words = split_ws line
      in if length words > 0 then
           (let f = hd words
            in case TFile_Open f of
                 None \<Rightarrow> filter_lines TFile_Open lines
               | Some root \<Rightarrow>
                   if IsOpen root \<and> \<not> IsZombie root then
                     (let (has_events, has_db) = scan_keys root (GetListOfKeys root) (False, False)
                      in if has_events \<and> has_db then f # filter_lines TFile_Open lines
                         else filter_lines TFile_Open lines)
                   else filter_lines TFile_Open lines)
         else filter_lines TFile_Open lines)"

text \<open>\<open>main\<close>: the printed lines and the return value.\<close>

definition main :: "(string \<Rightarrow> tfile option) \<Rightarrow> string list \<Rightarrow> string list \<times> int" where
  "main TFile_Open stdin = (filter_lines TFile_Open stdin, 0)"

text \<open>The words of the claim: an artroot file, and the first words of the non-blank lines.\<close>

definition has_key_of_class :: "tfile \<Rightarrow> string \<Rightarrow> string \<Rightarrow> bool" where
  "has_key_of_class root name cls \<longleftrightarrow>
     list_ex (\<lambda>key. key = name \<and> InheritsFrom (Get root key) cls) (GetListOfKeys root)"

definition is_artroot :: "(string \<Rightarrow> tfile option) \<Rightarrow> string \<Rightarrow> bool" where
  "is_artroot TFile_Open f \<longleftrightarrow>
     (case TFile_Open f of
        None \<Rightarrow> False
      | Some root \<Rightarrow>
          IsOpen root \<and> \<not> IsZombie root \<and>
          has_key_of_class root ''Events'' ''TTree'' \<and>
          has_key_of_class root ''RootFileDB'' ''TKey'')"

definition first_words :: "string list \<Rightarrow> string list" where
  "first_words lines = map hd (filter (\<lambda>words. words \<noteq> []) (map split_ws lines))"

lemma scan_keys_flags:
  "scan_keys root keys (e, d) =
     (e \<or> list_ex (\<lambda>key. key = ''Events'' \<and> InheritsFrom (Get root key) ''TTree'') keys,
      d \<or> list_ex (\<lambda>key. key = ''RootFileDB'' \<and> InheritsFrom (Get root key) ''TKey'') keys)"
  by (induction keys arbitrary: e d) (auto simp: Let_def)

lemma filter_lines_eq:
  "filter_lines TFile_Open lines = filter (is_artroot TFile_Open) (first_words lines)"
proof (induction lines)
  case Nil
  then show ?case by (simp add: first_words_def)
next
  case (Cons line lines)
  have fw: "first_words (line # lines) =
      (if split_ws line = [] then first_words lines else hd (split_ws line) # first_words lines)"
    by (simp add: first_words_def)
  show ?case
    unfolding fw using Cons.IH
    by (auto simp: Let_def is_artroot_def has_key_of_class_def scan_keys_flags
        split: option.splits)
qed

text \<open>
  Claim C8. For every input, \<open>main\<close> prints exactly the names \<open>f\<close>, in input order, such
  that \<open>f\<close> is the first word of a non-blank line, \<open>f\<close> opens as a ROOT file (open, not
  zombie), and the file has a key \<open>Events\<close> whose object inherits from TTree and a key
  \<open>RootFileDB\<close> whose object inherits from TKey; \<open>main\<close> returns 0. Blank lines and the
  words after the first do not appear in \<open>first_words\<close>, so they are ignored.
\<close>

theorem main_prints_artroot_files:
  "main TFile_Open stdin = (filter (is_artroot TFile_Open) (first_words stdin), 0)"
  by (simp add: main_def filter_lines_eq)

section \<open>project_utilities: the dimension evaluator\<close>

subsection \<open>expandDefnames\<close>

text \<open>
  \<open>samweb().descDefinitionDict(name)['dimensions']\<close> is a lookup in the definitions the
  SAM service holds; a name it does not know raises.
\<close>

type_synonym definitions = "string \<rightharpoonup> string"

text \<open>
  The loop over the words of the dimension, carrying \<open>isdefname\<close> and \<open>result\<close>.
  A definition with no \<open>or\<close> and no \<open>minus\<close> clause is left as it is; any other is
  replaced by its dimensions in parentheses.
\<close>

fun expand_words :: "definitions \<Rightarrow> string list \<Rightarrow> bool \<Rightarrow> string \<Rightarrow> py_error + string" where
  "expand_words defs [] isdefname result = Inr result"
| "expand_words defs (word # words) isdefname result =
     (if isdefname then
        (case defs word of
           None \<Rightarrow> Inl (SamError word)
         | Some descdim \<Rightarrow>
             if find descdim '' or '' < 0 \<and> find descdim '' minus '' < 0
             then expand_words defs words False (result @ '' defname: '' @ word)
             else expand_words defs words False (result @ '' ( '' @ descdim @ '' )''))
      else if word = ''defname:'' then expand_words defs words True result
      else expand_words defs words False (result @ '' '' @ word))"

definition expandDefnames :: "definitions \<Rightarrow> string \<Rightarrow> py_error + string" where
  "expandDefnames defs dim = expand_words defs (split_ws dim) False []"

text \<open>
  The loop at the start of \<open>listFiles\<close>: expand until the dimension no longer changes.
  It need not end, so it is a partial function: \<open>None\<close> is a loop that never returns.
\<close>

partial_function (option) expand_loop :: "definitions \<Rightarrow> string \<Rightarrow> (py_error + string) option" where
  "expand_loop defs dim =
     (case expandDefnames defs dim of
        Inl e \<Rightarrow> Some (Inl e)
      | Inr newdim \<Rightarrow> if newdim = dim then Some (Inr dim) else expand_loop defs newdim)"

declare expand_loop.simps [code]

subsection \<open>tokenizeRPN\<close>

text \<open>
  \<open>temp\<close> is used as a stack and is kept with its top first; \<open>result\<close> is the Python
  list in its order, so \<open>result[-1]\<close> is \<open>last result\<close> and \<open>result.pop()\<close> leaves
  \<open>butlast result\<close>.

  The inner loop of the \<open>or\<close> / \<open>minus\<close> branch: pop \<open>temp\<close> onto \<open>result\<close> down to a
  grouping symbol. The third string compared is \<open>ischildof:\<close>, as the source has it.
\<close>

fun pop_operators :: "string list \<Rightarrow> string list \<Rightarrow> string list \<times> string list" where
  "pop_operators [] result = ([], result)"
| "pop_operators (popped # temp) result =
     (if popped = ''('' \<or> popped = ''isparentof:('' \<or> popped = ''ischildof:''
      then (popped # temp, result)
      else pop_operators temp (result @ [popped]))"

text \<open>
  The inner loop of the \<open>)\<close> branch: pop \<open>temp\<close> onto \<open>result\<close> down to the opening
  symbol; \<open>temp.pop()\<close> on an empty list raises IndexError.
\<close>

fun close_group :: "string list \<Rightarrow> string list \<Rightarrow> py_error + string list \<times> string list" where
  "close_group [] result = Inl IndexError"
| "close_group (popped # temp) result =
     (if popped = ''('' then Inr (temp, result)
      else if popped = ''isparentof:('' then
        (if length result = 0 \<or> last result = ''or'' \<or> last result = ''minus''
         then Inl (RuntimeError ''isparentof: parse error'')
         else Inr (temp, butlast result @ [''isparentof:( '' @ last result @ '' )'']))
      else if popped = ''ischildof:('' then
        (if length result = 0 \<or> last result = ''or'' \<or> last result = ''minus''
         then Inl (RuntimeError ''ischildof: parse error'')
         else Inr (temp, butlast result @ [''ischildof:( '' @ last result @ '' )'']))
      else close_group temp (result @ [popped]))"

text \<open>\<open>if len(exp) > 0: result.append(exp)\<close>.\<close>

definition flush :: "string list \<Rightarrow> string \<Rightarrow> string list" where
  "flush result exp = (if length exp > 0 then result @ [exp] else result)"

text \<open>
  The body of the loop over the words of \<open>head\<close>, on \<open>temp\<close>, \<open>result\<close> and
  \<open>exp\<close>, and the loop itself.
\<close>

definition tokenize_word ::
  "string \<Rightarrow> string list \<times> string list \<times> string \<Rightarrow>
   py_error + string list \<times> string list \<times> string" where
  "tokenize_word word state =
     (case state of (temp, result, exp) \<Rightarrow>
        if word = ''('' \<or> word = ''isparentof:('' \<or> word = ''ischildof:('' then
          Inr (word # temp, flush result exp, [])
        else if word = ''or'' \<or> word = ''minus'' then
          (case pop_operators temp (flush result exp) of
             (temp, result) \<Rightarrow> Inr (word # temp, result, []))
        else if word = '')'' then
          (case close_group temp (flush result exp) of
             Inl e \<Rightarrow> Inl e
           | Inr (temp, result) \<Rightarrow> Inr (temp, result, []))
        else
          Inr (temp, result, if length exp = 0 then word else exp @ '' '' @ word))"

fun tokenize_words ::
  "string list \<Rightarrow> string list \<times> string list \<times> string \<Rightarrow>
   py_error + string list \<times> string list \<times> string" where
  "tokenize_words [] state = Inr state"
| "tokenize_words (word # words) state =
     (case tokenize_word word state of
        Inl e \<Rightarrow> Inl e
      | Inr state' \<Rightarrow> tokenize_words words state')"

definition tokenizeRPN :: "string \<Rightarrow> py_error + string list" where
  "tokenizeRPN dim =
     (let n = find dim ''with limit'';
          head = (if n \<ge> 0 then take (nat n) dim else dim);
          tail = (if n \<ge> 0 then drop (nat n) dim else []);
          head = replace ''('' '' ( '' head;
          head = replace '')'' '' ) '' head;
          head = replace ''isparentof: '' ''isparentof:'' head;
          head = replace ''ischildof: '' ''ischildof:'' head
      in case tokenize_words (split_ws head) ([], [], []) of
           Inl e \<Rightarrow> Inl e
         | Inr (temp, result, exp) \<Rightarrow>
             (let result = flush result exp @ temp
              in Inr (if length tail > 0 then result @ [tail] else result)))"

subsection \<open>listFiles\<close>

text \<open>
  A Python set of file names is a list without duplicates; \<open>len\<close> is its length. The
  sets are objects: \<open>samcache\<close> and the evaluation stack hold references to them, and
  \<open>heap\<close> gives the set a reference stands for, so that a set changed in place is
  changed for every holder of the reference. \<open>next_ref\<close> is the first unused reference.
\<close>

type_synonym fileset = "string list"

record sam_state =
  heap :: "nat \<Rightarrow> fileset"
  next_ref :: nat
  samcache :: "string \<rightharpoonup> nat"

definition empty_cache :: sam_state where
  "empty_cache = \<lparr>heap = (\<lambda>r. []), next_ref = 0, samcache = Map.empty\<rparr>"

text \<open>
  The SAM service: \<open>listFiles\<close> answers a dimension with a list of file names or raises,
  and \<open>descDefinitionDict\<close> looks a definition up.
\<close>

record samweb =
  sam_listFiles :: "string \<Rightarrow> py_error + string list"
  sam_definitions :: definitions

text \<open>A new set object.\<close>

definition new_set :: "fileset \<Rightarrow> sam_state \<Rightarrow> nat \<times> sam_state" where
  "new_set files st =
     (next_ref st, st\<lparr>heap := (heap st)(next_ref st := files), next_ref := Suc (next_ref st)\<rparr>)"

text \<open>
  \<open>s.pop()\<close> removes an arbitrary element: the one at a position that \<open>choice\<close> picks.
  On an empty set it raises KeyError.
\<close>

definition remove_nth :: "nat \<Rightarrow> 'a list \<Rightarrow> 'a list" where
  "remove_nth i xs = take i xs @ drop (Suc i) xs"

definition set_pop :: "(fileset \<Rightarrow> nat) \<Rightarrow> fileset \<Rightarrow> py_error + fileset" where
  "set_pop choice files =
     (if files = [] then Inl KeyError
      else Inr (remove_nth (choice files mod length files) files))"

lemma length_remove_nth: "i < length xs \<Longrightarrow> length (remove_nth i xs) = length xs - 1"
  by (simp add: remove_nth_def)

text \<open>
  \<open>while len(stack[-1]) > n: stack[-1].pop()\<close>, on the set itself: the result is the set
  as the loop leaves it, also when \<open>pop\<close> raises.
\<close>

function truncate ::
  "(fileset \<Rightarrow> nat) \<Rightarrow> int \<Rightarrow> fileset \<Rightarrow> (py_error + unit) \<times> fileset" where
  "truncate choice n files =
     (if int (length files) > n then
        (case set_pop choice files of
           Inl e \<Rightarrow> (Inl e, files)
         | Inr files' \<Rightarrow> truncate choice n files')
      else (Inr (), files))"
  by pat_completeness auto
termination
  by (relation "measure (\<lambda>(choice, n, files). length files)")
    (auto simp: set_pop_def length_remove_nth split: if_splits)

declare truncate.simps [simp del]

text \<open>
  The body of the loop over the items of the RPN list, on the stack (top first) and the
  state, and the loop itself. An exception leaves the state as it was when it was raised:
  the files that \<open>with limit\<close> has popped before a KeyError stay popped.
\<close>

definition eval_item ::
  "(fileset \<Rightarrow> nat) \<Rightarrow> samweb \<Rightarrow> string \<Rightarrow> nat list \<Rightarrow> sam_state \<Rightarrow>
   (py_error + nat list) \<times> sam_state" where
  "eval_item choice sam item stack st =
     (if item = ''or'' then
        (case stack of
           set1 # set2 # stack' \<Rightarrow>
             (case new_set (remdups (heap st set1 @ heap st set2)) st of
                (union_ref, st') \<Rightarrow> (Inr (union_ref # stack'), st'))
         | _ \<Rightarrow> (Inl IndexError, st))
      else if item = ''minus'' then
        (case stack of
           set1 # set2 # stack' \<Rightarrow>
             (case new_set (filter (\<lambda>f. f \<notin> set (heap st set1)) (heap st set2)) st of
                (diff_ref, st') \<Rightarrow> (Inr (diff_ref # stack'), st'))
         | _ \<Rightarrow> (Inl IndexError, st))
      else if startswith item ''with limit'' then
        (case py_int (drop 10 item) of
           Inl e \<Rightarrow> (Inl e, st)
         | Inr n \<Rightarrow>
             (case stack of
                [] \<Rightarrow> (Inl IndexError, st)
              | s1 # stack' \<Rightarrow>
                  (case truncate choice n (heap st s1) of
                     (Inl e, files) \<Rightarrow> (Inl e, st\<lparr>heap := (heap st)(s1 := files)\<rparr>)
                   | (Inr done, files) \<Rightarrow>
                       (Inr stack, st\<lparr>heap := (heap st)(s1 := files)\<rparr>))))
      else
        (case samcache st item of
           Some files \<Rightarrow> (Inr (files # stack), st)
         | None \<Rightarrow>
             (case sam_listFiles sam item of
                Inl e \<Rightarrow> (Inl e, st)
              | Inr listed \<Rightarrow>
                  (case new_set (remdups listed) st of
                     (files, st') \<Rightarrow>
                       (Inr (files # stack),
                        st'\<lparr>samcache := (samcache st')(item \<mapsto> files)\<rparr>)))))"

fun eval_rpn ::
  "(fileset \<Rightarrow> nat) \<Rightarrow> samweb \<Rightarrow> string list \<Rightarrow> nat list \<Rightarrow> sam_state \<Rightarrow>
   (py_error + nat list) \<times> sam_state" where
  "eval_rpn choice sam [] stack st = (Inr stack, st)"
| "eval_rpn choice sam (item # rpn) stack st =
     (case eval_item choice sam item stack st of
        (Inl e, st') \<Rightarrow> (Inl e, st')
      | (Inr stack', st') \<Rightarrow> eval_rpn choice sam rpn stack' st')"

text \<open>
  \<open>listFiles\<close> returns the reference of the result set, or the exception, and the state
  it leaves. A loop over the definitions that never ends gives no result at all.
\<close>

definition listFiles ::
  "(fileset \<Rightarrow> nat) \<Rightarrow> samweb \<Rightarrow> string \<Rightarrow> sam_state \<Rightarrow>
   ((py_error + nat) \<times> sam_state) option" where
  "listFiles choice sam dim st =
     (case samcache st dim of
        Some files \<Rightarrow> Some (Inr files, st)
      | None \<Rightarrow>
          (case expand_loop (sam_definitions sam) dim of
             None \<Rightarrow> None
           | Some (Inl e) \<Rightarrow> Some (Inl e, st)
           | Some (Inr dim) \<Rightarrow>
               (case tokenizeRPN dim of
                  Inl e \<Rightarrow> Some (Inl e, st)
                | Inr rpn \<Rightarrow>
                    (case eval_rpn choice sam rpn [] st of
                       (Inl e, st) \<Rightarrow> Some (Inl e, st)
                     | (Inr [], st) \<Rightarrow> Some (Inl IndexError, st)
                     | (Inr (s1 # stack), st) \<Rightarrow>
                         Some (Inr s1, st\<lparr>samcache := (samcache st)(dim \<mapsto> s1)\<rparr>)))))"

text \<open>\<open>' '.join(words)\<close>, and the same with a blank before every word.\<close>

fun join_words :: "string list \<Rightarrow> string" where
  "join_words [] = []"
| "join_words [w] = w"
| "join_words (w # v # ws) = w @ '' '' @ join_words (v # ws)"

definition spaced_words :: "string list \<Rightarrow> string" where
  "spaced_words ws = concat (map (\<lambda>w. '' '' @ w) ws)"

text \<open>A word, as \<open>split\<close> gives it: not empty and free of whitespace.\<close>

definition is_word :: "string \<Rightarrow> bool" where
  "is_word w \<longleftrightarrow> w \<noteq> [] \<and> list_all (\<lambda>c. \<not> isspace c) w"

text \<open>
  A plain word of a dimension: a word that is no operator and holds no parenthesis, so
  that the tokenizer appends it to \<open>exp\<close>.
\<close>

definition plain_word :: "string \<Rightarrow> bool" where
  "plain_word w \<longleftrightarrow>
     is_word w \<and> CHR ''('' \<notin> set w \<and> CHR '')'' \<notin> set w \<and> w \<noteq> ''or'' \<and> w \<noteq> ''minus''"

subsection \<open>Facts about the string methods\<close>

lemma find_index_None: "find_index p s = None \<longleftrightarrow> \<not> sublist p s"
  by (induction s) (auto simp: sublist_Cons_right)

lemma find_negative: "find s p < 0 \<longleftrightarrow> \<not> sublist p s"
  using find_index_None [of p s] by (auto simp: find_def split: option.splits)

lemma find_nonneg: "find s p \<ge> 0 \<longleftrightarrow> sublist p s"
  using find_negative [of s p] by linarith

lemma replace_id: "\<not> sublist old s \<Longrightarrow> replace old new s = s"
proof (induction old new s rule: replace.induct)
  case (1 old new)
  then show ?case by simp
next
  case (2 old new c cs)
  from "2.prems" have np: "\<not> prefix old (c # cs)" and ns: "\<not> sublist old cs"
    by (auto simp: sublist_Cons_right)
  with "2.IH"(2) show ?case by simp
qed

lemma replace_char:
  "replace [c] new s = concat (map (\<lambda>d. if d = c then new else [d]) s)"
  by (induction s) auto

lemma sublist_separator:
  assumes "c \<notin> set p" "p \<noteq> []"
  shows "sublist p (a @ c # b) \<longleftrightarrow> sublist p a \<or> sublist p b"
proof
  assume "sublist p (a @ c # b)"
  then consider "sublist p a" | "sublist p (c # b)"
    | p1 p2 where "p = p1 @ p2" "suffix p1 a" "prefix p2 (c # b)"
    by (auto simp: sublist_append)
  then show "sublist p a \<or> sublist p b"
  proof cases
    case 1
    then show ?thesis by simp
  next
    case 2
    then show ?thesis
      using assms by (auto simp: sublist_Cons_right prefix_Cons)
  next
    case 3
    show ?thesis
    proof (cases p2)
      case Nil
      with 3 show ?thesis by auto
    next
      case (Cons x xs)
      with 3 assms show ?thesis by (auto simp: prefix_Cons)
    qed
  qed
next
  assume "sublist p a \<or> sublist p b"
  then show "sublist p (a @ c # b)"
    by (auto simp: sublist_append sublist_Cons_right)
qed

lemma sublist_leading:
  assumes "p \<noteq> []" "hd p \<noteq> c"
  shows "sublist p (c # s) \<longleftrightarrow> sublist p s"
  using assms by (cases p) (auto simp: sublist_Cons_right prefix_Cons)

lemma sublist_trailing:
  assumes "p \<noteq> []" "last p \<noteq> c"
  shows "sublist p (s @ [c]) \<longleftrightarrow> sublist p s"
proof -
  have "sublist (rev p) (c # rev s) \<longleftrightarrow> sublist (rev p) (rev s)"
    using assms by (intro sublist_leading) (auto simp: hd_rev)
  then show ?thesis
    by (metis rev.simps(2) rev_rev_ident sublist_rev)
qed

lemma isspace_blank [simp]: "isspace CHR '' ''"
  by (simp add: isspace_def)

lemma split_ws_word:
  assumes "is_word w" "rest = [] \<or> isspace (hd rest)"
  shows "split_ws (w @ rest) = w # split_ws rest"
  using assms
proof (induction w)
  case Nil
  then show ?case by (simp add: is_word_def)
next
  case (Cons c w)
  show ?case
  proof (cases w)
    case Nil
    with Cons.prems show ?thesis
      by (cases rest) (auto simp: is_word_def)
  next
    case (Cons d w')
    with Cons.prems have "is_word w" "\<not> isspace c" "\<not> isspace d"
      by (auto simp: is_word_def)
    with Cons.IH Cons.prems(2) Cons show ?thesis by simp
  qed
qed

lemma split_ws_blank_word:
  "is_word w \<Longrightarrow> rest = [] \<or> isspace (hd rest) \<Longrightarrow>
   split_ws ('' '' @ w @ rest) = w # split_ws rest"
  using split_ws_word by simp

lemma split_ws_spaced_words:
  "list_all is_word ws \<Longrightarrow> split_ws (spaced_words ws @ rest) = ws @ split_ws rest"
  if "rest = [] \<or> isspace (hd rest)"
proof (induction ws)
  case Nil
  then show ?case by (simp add: spaced_words_def)
next
  case (Cons w ws)
  have "spaced_words (w # ws) @ rest = '' '' @ w @ (spaced_words ws @ rest)"
    by (simp add: spaced_words_def)
  moreover have "spaced_words ws @ rest = [] \<or> isspace (hd (spaced_words ws @ rest))"
    using that by (cases ws) (auto simp: spaced_words_def)
  ultimately show ?case
    using Cons split_ws_blank_word [of w "spaced_words ws @ rest"] by simp
qed

lemma spaced_words_join: "ws \<noteq> [] \<Longrightarrow> spaced_words ws = '' '' @ join_words ws"
  by (induction ws rule: join_words.induct) (auto simp: spaced_words_def)

lemma split_ws_join_words:
  assumes "list_all is_word ws"
  shows "split_ws (join_words ws) = ws"
proof (cases "ws = []")
  case True
  then show ?thesis by simp
next
  case False
  have "split_ws (join_words ws) = split_ws ('' '' @ join_words ws)"
    by simp
  also have "\<dots> = split_ws (spaced_words ws @ [])"
    using False by (simp add: spaced_words_join)
  also have "\<dots> = ws"
    using assms split_ws_spaced_words [of "[]" ws] by simp
  finally show ?thesis .
qed

lemma split_ws_words: "list_all is_word (split_ws s)"
proof (induction s rule: split_ws.induct)
  case 1
  then show ?case by simp
next
  case (2 c cs)
  then show ?case
    by (auto simp: is_word_def split: list.splits)
qed

lemma split_ws_append:
  assumes "b = [] \<or> isspace (hd b)"
  shows "split_ws (a @ b) = split_ws a @ split_ws b"
  using assms
proof (induction a rule: split_ws.induct)
  case 1
  then show ?case by simp
next
  case (2 c cs)
  show ?case
  proof (cases "isspace c")
    case True
    with 2 show ?thesis by simp
  next
    case nc: False
    show ?thesis
    proof (cases cs)
      case Nil
      with nc "2.prems" show ?thesis by (cases b) auto
    next
      case (Cons d ds)
      with nc 2 show ?thesis
        by (auto split: list.splits)
    qed
  qed
qed

lemma sublist_join_words: "w \<in> set ws \<Longrightarrow> sublist w (join_words ws)"
proof (induction ws rule: join_words.induct)
  case 1
  then show ?case by simp
next
  case (2 v)
  then show ?case by simp
next
  case (3 u v ws)
  show ?case
  proof (cases "w = u")
    case True
    then show ?thesis by (simp add: sublist_append)
  next
    case False
    with 3 have "sublist w (join_words (v # ws))" by simp
    then have "sublist w ((u @ '' '') @ join_words (v # ws))"
      by (rule sublist_order.order.trans) (rule sublist_append_leftI)
    then show ?thesis by simp
  qed
qed

subsection \<open>The tokenizer on plain words\<close>

lemma tokenize_words_append:
  "tokenize_words (xs @ ys) state =
     (case tokenize_words xs state of
        Inl e \<Rightarrow> Inl e
      | Inr state' \<Rightarrow> tokenize_words ys state')"
  by (induction xs arbitrary: state) (auto split: sum.splits)

lemma plain_word_neq:
  assumes "plain_word w"
  shows "w \<noteq> ''(''" "w \<noteq> '')''" "w \<noteq> ''isparentof:(''" "w \<noteq> ''ischildof:(''"
    "w \<noteq> ''or''" "w \<noteq> ''minus''" "w \<noteq> []"
  using assms by (auto simp: plain_word_def is_word_def)

lemma tokenize_plain_word:
  "plain_word w \<Longrightarrow>
   tokenize_word w (temp, result, exp) =
     Inr (temp, result, if exp = [] then w else exp @ '' '' @ w)"
  by (simp add: tokenize_word_def plain_word_neq)

lemma tokenize_plain_words:
  assumes "list_all plain_word ws" "ws \<noteq> []"
  shows "tokenize_words (ws @ rest) (temp, result, exp) =
     tokenize_words rest
       (temp, result, if exp = [] then join_words ws else exp @ '' '' @ join_words ws)"
  using assms
proof (induction ws arbitrary: exp rule: join_words.induct)
  case 1
  then show ?case by simp
next
  case (2 w)
  then show ?case by (simp add: tokenize_plain_word)
next
  case (3 w v ws)
  from "3.prems" have w: "plain_word w" and rest: "list_all plain_word (v # ws)"
    by auto
  have "w \<noteq> []"
    using w by (simp add: plain_word_def is_word_def)
  then show ?case
    using "3.IH" [OF rest, of "if exp = [] then w else exp @ '' '' @ w"] w
    by (simp add: tokenize_plain_word)
qed

lemma plain_word_is_word: "list_all plain_word ws \<Longrightarrow> list_all is_word ws"
  by (simp add: list_all_iff plain_word_def)

lemma join_words_no_char:
  "\<forall>w\<in>set ws. c \<notin> set w \<Longrightarrow> c \<noteq> CHR '' '' \<Longrightarrow> c \<notin> set (join_words ws)"
  by (induction ws rule: join_words.induct) auto

lemma join_words_not_Nil: "list_all is_word ws \<Longrightarrow> ws \<noteq> [] \<Longrightarrow> join_words ws \<noteq> []"
  by (induction ws rule: join_words.induct) (auto simp: is_word_def)

lemma map_char_id:
  "c \<notin> set s \<Longrightarrow> concat (map (\<lambda>d. if d = c then new else [d]) s) = s"
  by (induction s) auto

lemma replace_char_absent: "c \<notin> set s \<Longrightarrow> replace [c] new s = s"
  by (simp add: replace_char map_char_id)

lemma replace_char_append:
  "replace [c] new (a @ b) = replace [c] new a @ replace [c] new b"
  by (simp add: replace_char)

lemma sublist_set: "sublist p s \<Longrightarrow> set p \<subseteq> set s"
  by (auto simp: sublist_def)

subsection \<open>Dimensions without definitions\<close>

lemma expand_words_plain:
  "''defname:'' \<notin> set ws \<Longrightarrow> expand_words defs ws False r = Inr (r @ spaced_words ws)"
  by (induction ws arbitrary: r) (auto simp: spaced_words_def)

lemma expandDefnames_plain:
  "''defname:'' \<notin> set (split_ws dim) \<Longrightarrow>
   expandDefnames defs dim = Inr (spaced_words (split_ws dim))"
  by (simp add: expandDefnames_def expand_words_plain)

lemma split_ws_normal: "split_ws (spaced_words (split_ws dim)) = split_ws dim"
  using split_ws_spaced_words [of "[]" "split_ws dim"] split_ws_words [of dim] by simp

lemma expand_loop_plain:
  assumes "''defname:'' \<notin> set (split_ws dim)"
  shows "expand_loop defs dim = Some (Inr (spaced_words (split_ws dim)))"
proof -
  let ?d = "spaced_words (split_ws dim)"
  have "expandDefnames defs ?d = Inr ?d"
    using assms expandDefnames_plain [of ?d defs] by (simp add: split_ws_normal)
  then have stable: "expand_loop defs ?d = Some (Inr ?d)"
    by (subst expand_loop.simps) simp
  show ?thesis
    using assms stable by (subst expand_loop.simps) (simp add: expandDefnames_plain)
qed

subsection \<open>The cache of file sets\<close>

text \<open>A service with one dimension of two files and no definitions.\<close>

definition two_files :: samweb where
  "two_files =
     \<lparr>sam_listFiles = (\<lambda>dim. if dim = ''A'' then Inr [''a1'', ''a2''] else Inl (SamError dim)),
      sam_definitions = Map.empty\<rparr>"

lemma tok1: "tokenizeRPN '' A with limit 1'' = Inr [''A'', ''with limit 1'']"
  by (simp add: tokenizeRPN_def find_def tokenize_word_def flush_def isspace_def)

lemma tok2: "tokenizeRPN '' A'' = Inr [''A'']"
  by (simp add: tokenizeRPN_def find_def tokenize_word_def flush_def isspace_def)

text \<open>What a call returns to its caller: the set of files behind the reference.\<close>

definition returned ::
  "((py_error + nat) \<times> sam_state) option \<Rightarrow> (py_error + string set) option" where
  "returned r = map_option (\<lambda>(v, st). map_sum id (\<lambda>files. set (heap st files)) v) r"

lemma truncate_two:
  "truncate choice 1 [''a1'', ''a2''] = (Inr (), [''a1'']) \<or>
   truncate choice 1 [''a1'', ''a2''] = (Inr (), [''a2''])"
proof -
  define i where "i = choice [''a1'', ''a2''] mod length [''a1'', ''a2'']"
  have pop: "set_pop choice [''a1'', ''a2''] = Inr (remove_nth i [''a1'', ''a2''])"
    by (simp add: set_pop_def i_def)
  have "i = 0 \<or> i = 1"
    unfolding i_def by (simp del: One_nat_def) arith
  then have "remove_nth i [''a1'', ''a2''] = [''a2''] \<or> remove_nth i [''a1'', ''a2''] = [''a1'']"
    by (auto simp: remove_nth_def)
  moreover have "truncate choice 1 [f] = (Inr (), [f])" for f :: string
    by (subst truncate.simps) simp
  ultimately show ?thesis
    by (subst (1 2) truncate.simps) (auto simp: pop)
qed

lemma int_one: "py_int '' 1'' = Inr 1"
  by (simp add: py_int_def int_strip_def int_space_def isdecimal_def decimal_value_def
      digit_value_def max_str_digits_def)

text \<open>
  Claim C1 does not hold of the code. \<open>with limit\<close> pops files from the set on top of
  the stack, and that set is the object the cache holds for the dimension below the limit.
  Starting from an empty cache \<open>listFiles('A')\<close> returns both files of \<open>A\<close>; after
  \<open>listFiles('A with limit 1')\<close> the same call returns one file only, whichever file
  \<open>pop\<close> removes.
\<close>

theorem listFiles_limit_changes_cached_set:
  "returned (listFiles choice two_files ''A'' empty_cache) = Some (Inr {''a1'', ''a2''}) \<and>
   (\<exists>files st x.
      listFiles choice two_files ''A with limit 1'' empty_cache = Some (Inr files, st) \<and>
      returned (listFiles choice two_files ''A'' st) = Some (Inr {x}))"
proof
  have "expand_loop Map.empty ''A'' = Some (Inr '' A'')"
    using expand_loop_plain [of "''A''" Map.empty] by (simp add: isspace_def spaced_words_def)
  then show "returned (listFiles choice two_files ''A'' empty_cache) = Some (Inr {''a1'', ''a2''})"
    by (simp add: listFiles_def returned_def two_files_def empty_cache_def tok2 eval_item_def
        startswith_def new_set_def)
next
  have ex: "expand_loop Map.empty ''A with limit 1'' = Some (Inr '' A with limit 1'')"
    using expand_loop_plain [of "''A with limit 1''" Map.empty]
    by (simp add: isspace_def spaced_words_def)
  from truncate_two [of choice] obtain x where
    x: "truncate choice 1 [''a1'', ''a2''] = (Inr (), [x])"
    by auto
  let ?st = "\<lparr>heap = (\<lambda>r. if r = 0 then [x] else []), next_ref = Suc 0,
               samcache = [''A'' \<mapsto> 0, '' A with limit 1'' \<mapsto> 0]\<rparr>"
  have "listFiles choice two_files ''A with limit 1'' empty_cache = Some (Inr 0, ?st)"
    using ex x
    by (simp add: listFiles_def two_files_def empty_cache_def tok1 eval_item_def
        startswith_def new_set_def int_one fun_eq_iff)
  moreover have "returned (listFiles choice two_files ''A'' ?st) = Some (Inr {x})"
    by (simp add: listFiles_def returned_def)
  ultimately show "\<exists>files st x.
      listFiles choice two_files ''A with limit 1'' empty_cache = Some (Inr files, st) \<and>
      returned (listFiles choice two_files ''A'' st) = Some (Inr {x})"
    by blast
qed

subsection \<open>The grammar of dimensions\<close>

text \<open>
  The words \<open>tokenizeRPN\<close> loops over: \<open>head\<close> after its four replacements, split at
  whitespace.
\<close>

definition prepared_words :: "string \<Rightarrow> string list" where
  "prepared_words head =
     split_ws (replace ''ischildof: '' ''ischildof:''
       (replace ''isparentof: '' ''isparentof:''
         (replace '')'' '' ) '' (replace ''('' '' ( '' head))))"

text \<open>
  The part of a dimension before its first \<open>with limit\<close>, and the rest of it.
\<close>

definition limit_head :: "string \<Rightarrow> string" where
  "limit_head dim =
     (let n = find dim ''with limit'' in if n \<ge> 0 then take (nat n) dim else dim)"

definition limit_tail :: "string \<Rightarrow> string" where
  "limit_tail dim =
     (let n = find dim ''with limit'' in if n \<ge> 0 then drop (nat n) dim else [])"

text \<open>
  A dimension: an atomic dimension of one or more plain words, a group
  \<open>isparentof:( ... )\<close> or \<open>ischildof:( ... )\<close> around a dimension, a dimension in
  parentheses, and \<open>or\<close> and \<open>minus\<close> between dimensions.
\<close>

datatype expr =
    Atom "string list"
  | Group string expr
  | Paren expr
  | Or expr expr
  | Minus expr expr

text \<open>The words of a dimension, in the order they are written.\<close>

fun tokens :: "expr \<Rightarrow> string list" where
  "tokens (Atom ws) = ws"
| "tokens (Group kw e) = (kw @ ''('') # tokens e @ ['')'']"
| "tokens (Paren e) = ''('' # tokens e @ ['')'']"
| "tokens (Or a b) = tokens a @ ''or'' # tokens b"
| "tokens (Minus a b) = tokens a @ ''minus'' # tokens b"

fun primary :: "expr \<Rightarrow> bool" where
  "primary (Or a b) = False"
| "primary (Minus a b) = False"
| "primary e = True"

text \<open>
  A dimension with no \<open>or\<close> and no \<open>minus\<close> outside its groups: an atom or a group, in
  parentheses or not.
\<close>

fun operator_free :: "expr \<Rightarrow> bool" where
  "operator_free (Atom ws) = True"
| "operator_free (Group kw e) = True"
| "operator_free (Paren e) = operator_free e"
| "operator_free (Or a b) = False"
| "operator_free (Minus a b) = False"

text \<open>
  \<open>or\<close> and \<open>minus\<close> have the same precedence and associate to the left, so the right
  operand of either is an atom, a group or a dimension in parentheses. A group holds a
  dimension with no \<open>or\<close> and no \<open>minus\<close> of its own: plain words, another group, or
  either of them in parentheses.
\<close>

fun well_formed :: "expr \<Rightarrow> bool" where
  "well_formed (Atom ws) \<longleftrightarrow> ws \<noteq> [] \<and> list_all plain_word ws"
| "well_formed (Group kw e) \<longleftrightarrow>
     (kw = ''isparentof:'' \<or> kw = ''ischildof:'') \<and> well_formed e \<and> operator_free e"
| "well_formed (Paren e) \<longleftrightarrow> well_formed e"
| "well_formed (Or a b) \<longleftrightarrow> well_formed a \<and> well_formed b \<and> primary b"
| "well_formed (Minus a b) \<longleftrightarrow> well_formed a \<and> well_formed b \<and> primary b"

text \<open>
  The dimension in reverse Polish notation: an atom is one operand, its words joined by
  blanks, and a group is one operand, the operand of what it holds between the keyword
  with its parenthesis and the closing parenthesis, a blank inside each.
\<close>

fun rpn :: "expr \<Rightarrow> string list" where
  "rpn (Atom ws) = [join_words ws]"
| "rpn (Group kw e) = [kw @ ''( '' @ last (rpn e) @ '' )'']"
| "rpn (Paren e) = rpn e"
| "rpn (Or a b) = rpn a @ rpn b @ [''or'']"
| "rpn (Minus a b) = rpn a @ rpn b @ [''minus'']"

text \<open>
  While the tokenizer reads a dimension, the last operator of the dimension waits on
  \<open>temp\<close> and the rest of its reverse Polish notation is in \<open>result\<close> and \<open>exp\<close>.
\<close>

fun pending :: "expr \<Rightarrow> string list" where
  "pending (Or a b) = [''or'']"
| "pending (Minus a b) = [''minus'']"
| "pending e = []"

fun body :: "expr \<Rightarrow> string list" where
  "body (Or a b) = rpn a @ rpn b"
| "body (Minus a b) = rpn a @ rpn b"
| "body e = rpn e"

lemma body_pending: "body e @ pending e = rpn e"
  by (cases e) simp_all

lemma pending_cases: "pending e = [] \<or> pending e = [''or''] \<or> pending e = [''minus'']"
  by (cases e) simp_all

lemma primary_pending: "primary e \<Longrightarrow> pending e = []"
  by (cases e) simp_all

lemma tokenizeRPN_parts:
  "tokenizeRPN dim =
     (case tokenize_words (prepared_words (limit_head dim)) ([], [], []) of
        Inl e \<Rightarrow> Inl e
      | Inr (temp, result, exp) \<Rightarrow>
          Inr ((flush result exp @ temp) @ (if limit_tail dim = [] then [] else [limit_tail dim])))"
  by (simp add: tokenizeRPN_def prepared_words_def limit_head_def limit_tail_def Let_def
      split: sum.splits)

lemma no_limit:
  assumes "\<not> sublist ''with limit'' dim"
  shows "limit_head dim = dim" "limit_tail dim = []"
  using assms find_negative [of dim "''with limit''"]
  by (simp_all add: limit_head_def limit_tail_def)

lemma tokenize_open:
  "tokenize_word ''('' (temp, result, exp) = Inr (''('' # temp, flush result exp, [])"
  by (simp add: tokenize_word_def)

lemma tokenize_group_open:
  "kw = ''isparentof:'' \<or> kw = ''ischildof:'' \<Longrightarrow>
   tokenize_word (kw @ ''('') (temp, result, exp) = Inr ((kw @ ''('') # temp, flush result exp, [])"
  by (auto simp: tokenize_word_def)

lemma tokenize_operator:
  "op = ''or'' \<or> op = ''minus'' \<Longrightarrow>
   tokenize_word op (temp, result, exp) =
     (case pop_operators temp (flush result exp) of
        (temp', result') \<Rightarrow> Inr (op # temp', result', []))"
  by (auto simp: tokenize_word_def)

lemma tokenize_close:
  "tokenize_word '')'' (temp, result, exp) =
     (case close_group temp (flush result exp) of
        Inl e \<Rightarrow> Inl e
      | Inr (temp', result') \<Rightarrow> Inr (temp', result', []))"
  by (simp add: tokenize_word_def)

lemma pop_pending:
  assumes "temp = [] \<or> hd temp = ''(''"
    and "p = [] \<or> p = [''or''] \<or> p = [''minus'']"
  shows "pop_operators (p @ temp) result = (temp, result @ p)"
proof -
  have "pop_operators temp r = (temp, r)" for r
    using assms(1) by (cases temp) auto
  then show ?thesis
    using assms(2) by auto
qed

lemma close_pending:
  assumes "p = [] \<or> p = [''or''] \<or> p = [''minus'']"
  shows "close_group (p @ ''('' # temp) result = Inr (temp, result @ p)"
  using assms by auto

lemma join_words_blank: "CHR '' '' \<in> set (join_words (w # v # ws))"
  by simp

lemma join_plain_words:
  assumes "list_all plain_word ws" "ws \<noteq> []"
  shows "join_words ws \<noteq> ''or''" "join_words ws \<noteq> ''minus''" "join_words ws \<noteq> []"
proof -
  consider w where "ws = [w]" | w v us where "ws = w # v # us"
    using assms(2) by (cases ws rule: join_words.cases) auto
  then have "join_words ws \<noteq> ''or'' \<and> join_words ws \<noteq> ''minus'' \<and> join_words ws \<noteq> []"
  proof cases
    case 1
    with assms(1) show ?thesis by (simp add: plain_word_neq)
  next
    case 2
    have "CHR '' '' \<in> set (join_words ws)"
      unfolding 2 by (rule join_words_blank)
    then show ?thesis by auto
  qed
  then show "join_words ws \<noteq> ''or''" "join_words ws \<noteq> ''minus''" "join_words ws \<noteq> []"
    by simp_all
qed

lemma close_group_keyword:
  assumes "kw = ''isparentof:'' \<or> kw = ''ischildof:''"
    and "operand \<noteq> ''or''" "operand \<noteq> ''minus''"
  shows "close_group ((kw @ ''('') # temp) (result @ [operand]) =
     Inr (temp, result @ [kw @ ''( '' @ operand @ '' )''])"
  using assms by auto

lemma single_operand:
  assumes "well_formed e" and "operator_free e"
  shows "\<exists>operand. rpn e = [operand] \<and> operand \<noteq> ''or'' \<and> operand \<noteq> ''minus''"
  using assms
proof (induction e)
  case (Atom ws)
  then show ?case
    using join_plain_words [of ws] by simp
next
  case (Group kw e)
  then show ?case by auto
qed simp_all

lemma tokenize_dimension:
  assumes "well_formed e" and "temp = [] \<or> hd temp = ''('' \<or> primary e"
  shows "\<exists>result' exp'.
     tokenize_words (tokens e @ rest) (temp, result, []) =
       tokenize_words rest (pending e @ temp, result', exp') \<and>
     flush result' exp' = result @ body e"
  using assms
proof (induction e arbitrary: temp result rest)
  case (Atom ws)
  then have "tokenize_words (ws @ rest) (temp, result, []) =
      tokenize_words rest (temp, result, join_words ws)"
    by (simp add: tokenize_plain_words)
  moreover have "flush result (join_words ws) = result @ [join_words ws]"
    using Atom.prems(1) join_plain_words(3) [of ws] by (simp add: flush_def)
  ultimately show ?case
    unfolding tokens.simps pending.simps body.simps rpn.simps append_Nil by blast
next
  case (Group kw e)
  then have kw: "kw = ''isparentof:'' \<or> kw = ''ischildof:''"
    and wf: "well_formed e" and free: "operator_free e"
    by simp_all
  from single_operand [OF wf free] obtain operand where
    operand: "rpn e = [operand]" "operand \<noteq> ''or''" "operand \<noteq> ''minus''"
    by blast
  have prim: "primary e"
    using free by (cases e) simp_all
  then have inner: "(kw @ ''('') # temp = [] \<or> hd ((kw @ ''('') # temp) = ''('' \<or> primary e"
    by simp
  from Group.IH [where temp = "(kw @ ''('') # temp" and result = result and rest = "'')'' # rest",
      OF wf inner]
  obtain result' exp' where
    run: "tokenize_words (tokens e @ '')'' # rest) ((kw @ ''('') # temp, result, []) =
      tokenize_words ('')'' # rest) (pending e @ (kw @ ''('') # temp, result', exp')"
    and fl: "flush result' exp' = result @ body e"
    by blast
  have be: "body e = [operand]" "pending e = []"
    using prim operand(1) body_pending [of e] by (simp_all add: primary_pending)
  have "tokenize_words (tokens (Group kw e) @ rest) (temp, result, []) =
      tokenize_words (tokens e @ '')'' # rest) ((kw @ ''('') # temp, result, [])"
    by (simp add: tokenize_group_open [OF kw] flush_def)
  also have "\<dots> = tokenize_words rest (temp, result @ [kw @ ''( '' @ operand @ '' )''], [])"
    unfolding run using close_group_keyword [OF kw operand(2, 3), of temp result] fl be
    by (simp add: tokenize_close)
  finally have "tokenize_words (tokens (Group kw e) @ rest) (temp, result, []) =
      tokenize_words rest
        (pending (Group kw e) @ temp, result @ [kw @ ''( '' @ operand @ '' )''], []) \<and>
    flush (result @ [kw @ ''( '' @ operand @ '' )'']) [] = result @ body (Group kw e)"
    using operand(1) by (simp add: flush_def)
  then show ?case by blast
next
  case (Paren e)
  from Paren.prems have wf: "well_formed e" by simp
  have inner: "''('' # temp = [] \<or> hd (''('' # temp) = ''('' \<or> primary e"
    by simp
  from Paren.IH [where temp = "''('' # temp" and result = result and rest = "'')'' # rest",
      OF wf inner]
  obtain result' exp' where
    run: "tokenize_words (tokens e @ '')'' # rest) (''('' # temp, result, []) =
      tokenize_words ('')'' # rest) (pending e @ ''('' # temp, result', exp')"
    and fl: "flush result' exp' = result @ body e"
    by blast
  have "tokenize_words (tokens (Paren e) @ rest) (temp, result, []) =
      tokenize_words (tokens e @ '')'' # rest) (''('' # temp, result, [])"
    by (simp add: tokenize_open flush_def)
  also have "\<dots> = tokenize_words rest (temp, result @ body e @ pending e, [])"
    unfolding run using close_pending [OF pending_cases, of e temp "result @ body e"] fl
    by (simp add: tokenize_close)
  finally have "tokenize_words (tokens (Paren e) @ rest) (temp, result, []) =
      tokenize_words rest (pending (Paren e) @ temp, result @ body e @ pending e, []) \<and>
    flush (result @ body e @ pending e) [] = result @ body (Paren e)"
    by (simp add: flush_def body_pending)
  then show ?case by blast
next
  case (Or a b)
  from Or.prems have wf: "well_formed a" "well_formed b" "primary b"
    and temp: "temp = [] \<or> hd temp = ''(''"
    by simp_all
  have left: "temp = [] \<or> hd temp = ''('' \<or> primary a"
    using temp by blast
  have right: "''or'' # temp = [] \<or> hd (''or'' # temp) = ''('' \<or> primary b"
    using wf(3) by blast
  from Or.IH(1) [where temp = temp and result = result and rest = "''or'' # tokens b @ rest",
      OF wf(1) left]
  obtain result1 exp1 where
    run1: "tokenize_words (tokens a @ ''or'' # tokens b @ rest) (temp, result, []) =
      tokenize_words (''or'' # tokens b @ rest) (pending a @ temp, result1, exp1)"
    and fl1: "flush result1 exp1 = result @ body a"
    by blast
  from Or.IH(2) [where temp = "''or'' # temp" and result = "result @ rpn a" and rest = rest,
      OF wf(2) right]
  obtain result2 exp2 where
    run2: "tokenize_words (tokens b @ rest) (''or'' # temp, result @ rpn a, []) =
      tokenize_words rest (pending b @ ''or'' # temp, result2, exp2)"
    and fl2: "flush result2 exp2 = (result @ rpn a) @ body b"
    by blast
  have "tokenize_words (''or'' # tokens b @ rest) (pending a @ temp, result1, exp1) =
      tokenize_words (tokens b @ rest) (''or'' # temp, result @ rpn a, [])"
    using pop_pending [OF temp pending_cases, of a "result @ body a"] fl1
    by (simp add: tokenize_operator body_pending)
  with run1 run2 have "tokenize_words (tokens (Or a b) @ rest) (temp, result, []) =
      tokenize_words rest (pending (Or a b) @ temp, result2, exp2)"
    using wf(3) by (simp add: primary_pending)
  moreover have "flush result2 exp2 = result @ body (Or a b)"
    using fl2 wf(3) by (cases b) simp_all
  ultimately show ?case by blast
next
  case (Minus a b)
  from Minus.prems have wf: "well_formed a" "well_formed b" "primary b"
    and temp: "temp = [] \<or> hd temp = ''(''"
    by simp_all
  have left: "temp = [] \<or> hd temp = ''('' \<or> primary a"
    using temp by blast
  have right: "''minus'' # temp = [] \<or> hd (''minus'' # temp) = ''('' \<or> primary b"
    using wf(3) by blast
  from Minus.IH(1) [where temp = temp and result = result and rest = "''minus'' # tokens b @ rest",
      OF wf(1) left]
  obtain result1 exp1 where
    run1: "tokenize_words (tokens a @ ''minus'' # tokens b @ rest) (temp, result, []) =
      tokenize_words (''minus'' # tokens b @ rest) (pending a @ temp, result1, exp1)"
    and fl1: "flush result1 exp1 = result @ body a"
    by blast
  from Minus.IH(2) [where temp = "''minus'' # temp" and result = "result @ rpn a" and rest = rest,
      OF wf(2) right]
  obtain result2 exp2 where
    run2: "tokenize_words (tokens b @ rest) (''minus'' # temp, result @ rpn a, []) =
      tokenize_words rest (pending b @ ''minus'' # temp, result2, exp2)"
    and fl2: "flush result2 exp2 = (result @ rpn a) @ body b"
    by blast
  have "tokenize_words (''minus'' # tokens b @ rest) (pending a @ temp, result1, exp1) =
      tokenize_words (tokens b @ rest) (''minus'' # temp, result @ rpn a, [])"
    using pop_pending [OF temp pending_cases, of a "result @ body a"] fl1
    by (simp add: tokenize_operator body_pending)
  with run1 run2 have "tokenize_words (tokens (Minus a b) @ rest) (temp, result, []) =
      tokenize_words rest (pending (Minus a b) @ temp, result2, exp2)"
    using wf(3) by (simp add: primary_pending)
  moreover have "flush result2 exp2 = result @ body (Minus a b)"
    using fl2 wf(3) by (cases b) simp_all
  ultimately show ?case by blast
qed

lemma tokenizeRPN_limit:
  assumes "well_formed e" and "prepared_words (limit_head dim) = tokens e"
  shows "tokenizeRPN dim =
     Inr (rpn e @ (if limit_tail dim = [] then [] else [limit_tail dim]))"
proof -
  have "[] = [] \<or> hd [] = ''('' \<or> primary e"
    by simp
  from tokenize_dimension [where temp = "[]" and result = "[]" and rest = "[]", OF assms(1) this]
  obtain result' exp' where
    "tokenize_words (tokens e) ([], [], []) = Inr (pending e, result', exp')"
    and "flush result' exp' = body e"
    by auto
  then show ?thesis
    using assms(2) by (simp add: tokenizeRPN_parts body_pending)
qed

lemma tokenizeRPN_dimension:
  assumes "well_formed e" and "\<not> sublist ''with limit'' dim" and "prepared_words dim = tokens e"
  shows "tokenizeRPN dim = Inr (rpn e)"
  using tokenizeRPN_limit [of e dim] assms by (simp add: no_limit)






subsection \<open>The expansion of definitions\<close>

lemma spaced_words_append: "spaced_words (us @ vs) = spaced_words us @ spaced_words vs"
  by (simp add: spaced_words_def)

lemma expand_words_plain_append:
  "''defname:'' \<notin> set ws \<Longrightarrow>
   expand_words defs (ws @ vs) False r = expand_words defs vs False (r @ spaced_words ws)"
  by (induction ws arbitrary: r) (auto simp: spaced_words_def)

text \<open>A definition that refers to itself, and the dimensions the loop runs through.\<close>

definition looping_definitions :: definitions where
  "looping_definitions = [''foo'' \<mapsto> ''defname: foo or x'']"

definition growing_words :: "nat \<Rightarrow> string list" where
  "growing_words n =
     replicate n ''('' @ [''('', ''defname:'', ''foo'', ''or'', ''x'', '')''] @
     concat (replicate n [''or'', ''x'', '')''])"

definition growing :: "nat \<Rightarrow> string" where
  "growing n = spaced_words (growing_words n)"

lemma growing_words_are_words: "list_all is_word (growing_words n)"
  by (induction n) (auto simp: growing_words_def is_word_def isspace_def list_all_iff)

lemma split_ws_growing: "split_ws (growing n) = growing_words n"
  using split_ws_spaced_words [of "[]" "growing_words n"] growing_words_are_words [of n]
  by (simp add: growing_def)

lemma expand_core:
  "expand_words looping_definitions (''defname:'' # ''foo'' # ws) False r =
   expand_words looping_definitions ws False (r @ '' ( defname: foo or x )'')"
  by (simp add: looping_definitions_def find_def)

lemma expand_growing: "expandDefnames looping_definitions (growing n) = Inr (growing (Suc n))"
proof -
  let ?opens = "replicate n ''(''" and ?closes = "concat (replicate n [''or'', ''x'', '')''])"
  have plain: "''defname:'' \<notin> set (?opens @ [''(''])" "''defname:'' \<notin> set ([''or'', ''x'', '')''] @ ?closes)"
    by auto
  have "expand_words looping_definitions (growing_words n) False [] =
      expand_words looping_definitions
        ((?opens @ [''('']) @ ''defname:'' # ''foo'' # ([''or'', ''x'', '')''] @ ?closes)) False []"
    by (simp add: growing_words_def)
  also have "\<dots> = expand_words looping_definitions ([''or'', ''x'', '')''] @ ?closes) False
      (spaced_words (?opens @ [''('']) @ '' ( defname: foo or x )'')"
    by (simp only: expand_words_plain_append [OF plain(1)] expand_core append_Nil)
  also have "\<dots> = Inr ((spaced_words (?opens @ [''('']) @ '' ( defname: foo or x )'') @
      spaced_words ([''or'', ''x'', '')''] @ ?closes))"
    by (rule expand_words_plain [OF plain(2)])
  also have "(spaced_words (?opens @ [''('']) @ '' ( defname: foo or x )'') @
      spaced_words ([''or'', ''x'', '')''] @ ?closes) = growing (Suc n)"
    by (simp add: growing_def growing_words_def spaced_words_def replicate_append_same)
  finally show ?thesis
    by (simp add: expandDefnames_def split_ws_growing)
qed

lemma length_growing: "length (growing n) = 22 + 9 * n"
  by (induction n) (simp_all add: growing_def growing_words_def spaced_words_def
      replicate_append_same)

lemma growing_changes: "growing (Suc n) \<noteq> growing n"
proof
  assume "growing (Suc n) = growing n"
  then have "length (growing (Suc n)) = length (growing n)"
    by simp
  then show False
    by (simp only: length_growing) simp
qed

lemma expand_loop_growing:
  assumes "expand_loop defs dim = Some y"
  shows "defs = looping_definitions \<longrightarrow> (\<forall>n. dim \<noteq> growing n)"
proof (rule expand_loop.raw_induct
    [where P = "\<lambda>defs dim y. defs = looping_definitions \<longrightarrow> (\<forall>n. dim \<noteq> growing n)",
      OF _ assms])
  fix loop :: "definitions \<Rightarrow> string \<Rightarrow> (py_error + string) option"
  fix defs dim y
  assume IH: "\<And>defs dim y. loop defs dim = Some y \<Longrightarrow>
      defs = looping_definitions \<longrightarrow> (\<forall>n. dim \<noteq> growing n)"
    and step: "(case expandDefnames defs dim of
        Inl e \<Rightarrow> Some (Inl e)
      | Inr newdim \<Rightarrow> if newdim = dim then Some (Inr dim) else loop defs newdim) = Some y"
  show "defs = looping_definitions \<longrightarrow> (\<forall>n. dim \<noteq> growing n)"
  proof (intro impI allI notI)
    fix n
    assume defs: "defs = looping_definitions" and dim: "dim = growing n"
    from step have "loop looping_definitions (growing (Suc n)) = Some y"
      unfolding defs dim by (simp add: expand_growing growing_changes)
    from IH [OF this] show False by blast
  qed
qed

text \<open>
  Claim C5 as the spec states it fails: with a definition \<open>foo\<close> whose dimensions are
  \<open>defname: foo or x\<close>, the loop on \<open>defname: foo\<close> never returns, and neither does
  \<open>listFiles\<close>.
\<close>

theorem expand_loop_self_reference:
  "expand_loop looping_definitions ''defname: foo'' = None \<and>
   listFiles (\<lambda>files. 0) (two_files\<lparr>sam_definitions := looping_definitions\<rparr>)
     ''defname: foo'' empty_cache = None"
proof -
  have first: "expandDefnames looping_definitions ''defname: foo'' = Inr (growing 0)"
    by (simp add: expandDefnames_def looping_definitions_def find_def growing_def
        growing_words_def spaced_words_def isspace_def)
  have "growing 0 \<noteq> ''defname: foo''"
    using length_growing [of 0] by auto
  with first have "expand_loop looping_definitions ''defname: foo'' =
      expand_loop looping_definitions (growing 0)"
    by (subst expand_loop.simps) simp
  moreover have "expand_loop looping_definitions (growing 0) = None"
    using expand_loop_growing [of looping_definitions "growing 0"]
    by (cases "expand_loop looping_definitions (growing 0)") auto
  ultimately have "expand_loop looping_definitions ''defname: foo'' = None"
    by simp
  then show ?thesis
    by (simp add: listFiles_def empty_cache_def)
qed

text \<open>
  What the loop of \<open>expandDefnames\<close> does with its words, apart from \<open>result\<close>: the
  names it looks up, and the value of \<open>isdefname\<close> after the last word.
\<close>

fun references :: "string list \<Rightarrow> bool \<Rightarrow> string list" where
  "references [] isdefname = []"
| "references (word # words) isdefname =
     (if isdefname then word # references words False
      else references words (word = ''defname:''))"

fun dangling :: "string list \<Rightarrow> bool \<Rightarrow> bool" where
  "dangling [] isdefname = isdefname"
| "dangling (word # words) isdefname =
     (if isdefname then dangling words False else dangling words (word = ''defname:''))"

text \<open>The definitions that \<open>expandDefnames\<close> replaces by their dimensions.\<close>

definition expandable :: "string \<Rightarrow> bool" where
  "expandable descdim \<longleftrightarrow> \<not> (find descdim '' or '' < 0 \<and> find descdim '' minus '' < 0)"

definition expands :: "definitions \<Rightarrow> string \<Rightarrow> bool" where
  "expands defs name = (case defs name of None \<Rightarrow> False | Some descdim \<Rightarrow> expandable descdim)"

text \<open>
  The definitions do not lead back to themselves: every definition that is replaced has
  a rank, and the definitions that its replacement \<open>( dimensions )\<close> refers to and that
  are replaced in their turn have a smaller rank.
\<close>

definition ranked :: "definitions \<Rightarrow> (string \<Rightarrow> nat) \<Rightarrow> bool" where
  "ranked defs rank \<longleftrightarrow>
     (\<forall>name descdim. defs name = Some descdim \<longrightarrow> expandable descdim \<longrightarrow>
        (\<forall>inner \<in> set (references (split_ws ('' ( '' @ descdim @ '' )'')) False).
           expands defs inner \<longrightarrow> rank inner < rank name))"

definition bounded :: "definitions \<Rightarrow> (string \<Rightarrow> nat) \<Rightarrow> nat \<Rightarrow> string list \<Rightarrow> bool" where
  "bounded defs rank k names \<longleftrightarrow> (\<forall>name \<in> set names. expands defs name \<longrightarrow> rank name < k)"

lemma bounded_append [simp]:
  "bounded defs rank k (xs @ ys) \<longleftrightarrow> bounded defs rank k xs \<and> bounded defs rank k ys"
  by (auto simp: bounded_def)

lemma bounded_Nil [simp]: "bounded defs rank k []"
  by (simp add: bounded_def)

lemma references_append:
  "references (us @ vs) f = references us f @ references vs (dangling us f)"
  by (induction us f rule: references.induct) auto

lemma dangling_append: "dangling (us @ vs) f = dangling vs (dangling us f)"
  by (induction us f rule: dangling.induct) auto

lemma dangling_close: "\<not> dangling (ws @ ['')'']) f"
  by (cases "dangling ws f") (simp_all add: dangling_append)

lemma split_ws_piece:
  "split_ws ('' ( '' @ descdim @ '' )'') = ''('' # split_ws descdim @ ['')'']"
proof -
  have "split_ws ('' ( '' @ descdim @ '' )'') = ''('' # split_ws ('' '' @ descdim @ '' )'')"
    by (simp add: isspace_def)
  also have "split_ws ('' '' @ descdim @ '' )'') = split_ws (descdim @ '' )'')"
    by simp
  also have "\<dots> = split_ws descdim @ split_ws '' )''"
    by (rule split_ws_append) simp
  finally show ?thesis
    by (simp add: isspace_def)
qed

lemma split_ws_blank_single:
  "is_word w \<Longrightarrow> split_ws (r @ '' '' @ w) = split_ws r @ [w]"
  using split_ws_append [of "'' '' @ w" r] split_ws_word [of w "[]"] by simp

lemma split_ws_defname:
  "is_word w \<Longrightarrow> split_ws (r @ '' defname: '' @ w) = split_ws r @ [''defname:'', w]"
proof -
  assume w: "is_word w"
  have "split_ws (r @ '' defname: '' @ w) = split_ws r @ split_ws ('' defname: '' @ w)"
    by (rule split_ws_append) simp
  moreover have "split_ws ('' defname: '' @ w) = ''defname:'' # split_ws ('' '' @ w)"
    using split_ws_word [of "''defname:''" "'' '' @ w"] by (simp add: is_word_def isspace_def)
  moreover have "split_ws ('' '' @ w) = [w]"
    using split_ws_word [OF w, of "[]"] by simp
  ultimately show ?thesis by simp
qed

text \<open>
  One pass of \<open>expandDefnames\<close> over words whose replaced definitions have a rank of at
  most \<open>k\<close> leaves a dimension whose replaced definitions have a rank below \<open>k\<close>.
\<close>

lemma expand_words_step:
  assumes "ranked defs rank"
    and "list_all is_word ws"
    and "bounded defs rank (Suc k) (references ws f)"
    and "\<not> dangling (split_ws r) False"
    and "bounded defs rank k (references (split_ws r) False)"
  shows "(\<exists>e. expand_words defs ws f r = Inl e) \<or>
     (\<exists>r'. expand_words defs ws f r = Inr r' \<and> \<not> dangling (split_ws r') False \<and>
        bounded defs rank k (references (split_ws r') False))"
  using assms(2-)
proof (induction ws arbitrary: f r)
  case Nil
  then show ?case by simp
next
  case (Cons w ws)
  from Cons.prems(1) have w: "is_word w" and ws: "list_all is_word ws"
    by simp_all
  show ?case
  proof (cases f)
    case True
    with Cons.prems(2) have rest: "bounded defs rank (Suc k) (references ws False)"
      and this_name: "expands defs w \<longrightarrow> rank w < Suc k"
      by (simp_all add: bounded_def)
    show ?thesis
    proof (cases "defs w")
      case None
      with True show ?thesis by simp
    next
      case (Some descdim)
      show ?thesis
      proof (cases "expandable descdim")
        case False
        let ?r = "r @ '' defname: '' @ w"
        have sp: "split_ws ?r = split_ws r @ [''defname:'', w]"
          using w by (rule split_ws_defname)
        have "\<not> dangling (split_ws ?r) False"
          using Cons.prems(3) unfolding sp by (simp add: dangling_append)
        moreover have "bounded defs rank k (references (split_ws ?r) False)"
          using Cons.prems(3, 4) Some False unfolding sp
          by (simp add: references_append) (simp add: bounded_def expands_def)
        ultimately have "(\<exists>e. expand_words defs ws False ?r = Inl e) \<or>
            (\<exists>r'. expand_words defs ws False ?r = Inr r' \<and> \<not> dangling (split_ws r') False \<and>
               bounded defs rank k (references (split_ws r') False))"
          using Cons.IH [OF ws rest] by blast
        moreover have "expand_words defs (w # ws) f r = expand_words defs ws False ?r"
          using True Some False by (auto simp: expandable_def)
        ultimately show ?thesis by simp
      next
        case expandable: True
        let ?r = "r @ '' ( '' @ descdim @ '' )''"
        let ?piece = "split_ws ('' ( '' @ descdim @ '' )'')"
        have sp: "split_ws ?r = split_ws r @ ?piece"
          by (rule split_ws_append) simp
        have piece: "?piece = (''('' # split_ws descdim) @ ['')'']"
          unfolding split_ws_piece by simp
        have "dangling (split_ws ?r) False =
            dangling ((''('' # split_ws descdim) @ ['')'']) (dangling (split_ws r) False)"
          unfolding sp piece by (rule dangling_append)
        then have "\<not> dangling (split_ws ?r) False"
          by (simp only: dangling_close) simp
        moreover have "bounded defs rank k (references ?piece False)"
          unfolding bounded_def
        proof (intro ballI impI)
          fix inner
          assume "inner \<in> set (references ?piece False)" and "expands defs inner"
          with assms(1) Some expandable have "rank inner < rank w"
            unfolding ranked_def by blast
          moreover have "rank w < Suc k"
            using this_name Some expandable by (simp add: expands_def)
          ultimately show "rank inner < k" by simp
        qed
        then have "bounded defs rank k (references (split_ws ?r) False)"
          using Cons.prems(3, 4) unfolding sp by (simp add: references_append)
        ultimately have "(\<exists>e. expand_words defs ws False ?r = Inl e) \<or>
            (\<exists>r'. expand_words defs ws False ?r = Inr r' \<and> \<not> dangling (split_ws r') False \<and>
               bounded defs rank k (references (split_ws r') False))"
          using Cons.IH [OF ws rest] by blast
        moreover have "expand_words defs (w # ws) f r = expand_words defs ws False ?r"
          using True Some expandable by (auto simp: expandable_def)
        ultimately show ?thesis by simp
      qed
    qed
  next
    case False
    show ?thesis
    proof (cases "w = ''defname:''")
      case True
      with False Cons.prems(2) have "bounded defs rank (Suc k) (references ws True)"
        by simp
      from Cons.IH [OF ws this Cons.prems(3, 4)] show ?thesis
        using False True by simp
    next
      case plain: False
      let ?r = "r @ '' '' @ w"
      have sp: "split_ws ?r = split_ws r @ [w]"
        using w by (rule split_ws_blank_single)
      have "\<not> dangling (split_ws ?r) False"
        using Cons.prems(3) plain unfolding sp by (simp add: dangling_append)
      moreover have "bounded defs rank k (references (split_ws ?r) False)"
        using Cons.prems(3, 4) plain unfolding sp by (simp add: references_append)
      moreover have "bounded defs rank (Suc k) (references ws False)"
        using False plain Cons.prems(2) by simp
      ultimately have "(\<exists>e. expand_words defs ws False ?r = Inl e) \<or>
          (\<exists>r'. expand_words defs ws False ?r = Inr r' \<and> \<not> dangling (split_ws r') False \<and>
             bounded defs rank k (references (split_ws r') False))"
        using Cons.IH [OF ws] by blast
      moreover have "expand_words defs (w # ws) f r = expand_words defs ws False ?r"
        using False plain by simp
      ultimately show ?thesis by simp
    qed
  qed
qed

text \<open>
  Words that \<open>expandDefnames\<close> leaves as they are: every name looked up has a definition
  that is not replaced.
\<close>

definition settled :: "definitions \<Rightarrow> string list \<Rightarrow> bool" where
  "settled defs names \<longleftrightarrow> (\<forall>name \<in> set names. \<exists>descdim. defs name = Some descdim \<and> \<not> expandable descdim)"

lemma expand_words_settled:
  assumes "settled defs (references v f)" and "\<not> dangling v f"
  shows "expand_words defs v f r = Inr (r @ (if f then '' defname:'' else []) @ spaced_words v)"
  using assms
proof (induction v arbitrary: f r)
  case Nil
  then show ?case by (simp add: spaced_words_def)
next
  case (Cons w v)
  show ?case
  proof (cases f)
    case True
    with Cons.prems obtain descdim where d: "defs w = Some descdim" "\<not> expandable descdim"
      and rest: "settled defs (references v False)" "\<not> dangling v False"
      by (auto simp: settled_def)
    from Cons.IH [OF rest] True d show ?thesis
      by (auto simp: expandable_def spaced_words_def)
  next
    case False
    show ?thesis
    proof (cases "w = ''defname:''")
      case True
      with False Cons.prems have "settled defs (references v True)" "\<not> dangling v True"
        by simp_all
      from Cons.IH [OF this] False True show ?thesis
        by (simp add: spaced_words_def)
    next
      case plain: False
      with False Cons.prems have "settled defs (references v False)" "\<not> dangling v False"
        by simp_all
      from Cons.IH [OF this] False plain show ?thesis
        by (simp add: spaced_words_def)
    qed
  qed
qed

lemma expand_words_unexpanded:
  assumes "list_all is_word ws"
    and "bounded defs rank 0 (references ws f)"
    and "list_all is_word u" "\<not> dangling u False" "settled defs (references u False)"
  shows "(\<exists>e. expand_words defs ws f (spaced_words u) = Inl e) \<or>
     (\<exists>v. expand_words defs ws f (spaced_words u) = Inr (spaced_words v) \<and>
        list_all is_word v \<and> \<not> dangling v False \<and> settled defs (references v False))"
  using assms
proof (induction ws arbitrary: f u)
  case Nil
  then show ?case by auto
next
  case (Cons w ws)
  from Cons.prems(1) have w: "is_word w" and ws: "list_all is_word ws"
    by simp_all
  show ?case
  proof (cases f)
    case True
    with Cons.prems(2) have rest: "bounded defs rank 0 (references ws False)"
      and this_name: "\<not> expands defs w"
      by (simp_all add: bounded_def)
    show ?thesis
    proof (cases "defs w")
      case None
      with True show ?thesis by simp
    next
      case (Some descdim)
      with this_name have ne: "\<not> expandable descdim"
        by (simp add: expands_def)
      let ?u = "u @ [''defname:'', w]"
      have "is_word ''defname:''"
        by (simp add: is_word_def isspace_def)
      then have "list_all is_word ?u"
        using Cons.prems(3) w by simp
      moreover have "\<not> dangling ?u False"
        using Cons.prems(4) by (simp add: dangling_append)
      moreover have "settled defs (references ?u False)"
        using Cons.prems(4, 5) Some ne by (simp add: references_append settled_def)
      ultimately have "(\<exists>e. expand_words defs ws False (spaced_words ?u) = Inl e) \<or>
          (\<exists>v. expand_words defs ws False (spaced_words ?u) = Inr (spaced_words v) \<and>
             list_all is_word v \<and> \<not> dangling v False \<and> settled defs (references v False))"
        using Cons.IH [OF ws rest] by blast
      moreover have "expand_words defs (w # ws) f (spaced_words u) =
          expand_words defs ws False (spaced_words ?u)"
        using True Some ne by (auto simp: expandable_def spaced_words_def)
      ultimately show ?thesis by simp
    qed
  next
    case False
    show ?thesis
    proof (cases "w = ''defname:''")
      case True
      with False Cons.prems(2) have "bounded defs rank 0 (references ws True)"
        by simp
      from Cons.IH [OF ws this Cons.prems(3-)] show ?thesis
        using False True by simp
    next
      case plain: False
      let ?u = "u @ [w]"
      have "list_all is_word ?u"
        using Cons.prems(3) w by simp
      moreover have "\<not> dangling ?u False"
        using Cons.prems(4) plain by (simp add: dangling_append)
      moreover have "settled defs (references ?u False)"
        using Cons.prems(4, 5) plain by (simp add: references_append settled_def)
      moreover have "bounded defs rank 0 (references ws False)"
        using False plain Cons.prems(2) by simp
      ultimately have "(\<exists>e. expand_words defs ws False (spaced_words ?u) = Inl e) \<or>
          (\<exists>v. expand_words defs ws False (spaced_words ?u) = Inr (spaced_words v) \<and>
             list_all is_word v \<and> \<not> dangling v False \<and> settled defs (references v False))"
        using Cons.IH [OF ws] by blast
      moreover have "expand_words defs (w # ws) f (spaced_words u) =
          expand_words defs ws False (spaced_words ?u)"
        using False plain by (simp add: spaced_words_def)
      ultimately show ?thesis by simp
    qed
  qed
qed

lemma expand_loop_unexpanded:
  assumes "bounded defs rank 0 (references (split_ws dim) False)"
  shows "\<exists>result. expand_loop defs dim = Some result"
proof -
  have start: "list_all is_word []" "\<not> dangling [] False" "settled defs (references [] False)"
    by (simp_all add: settled_def)
  from expand_words_unexpanded [OF split_ws_words assms start]
  consider e where "expandDefnames defs dim = Inl e"
    | v where "expandDefnames defs dim = Inr (spaced_words v)" "list_all is_word v"
      "\<not> dangling v False" "settled defs (references v False)"
    by (auto simp: expandDefnames_def spaced_words_def)
  then show ?thesis
  proof cases
    case 1
    then show ?thesis
      by (subst expand_loop.simps) simp
  next
    case 2
    have "split_ws (spaced_words v) = v"
      using split_ws_spaced_words [of "[]" v] 2(2) by simp
    then have "expandDefnames defs (spaced_words v) = Inr (spaced_words v)"
      using expand_words_settled [OF 2(4, 3), of "[]"] by (simp add: expandDefnames_def)
    then have "expand_loop defs (spaced_words v) = Some (Inr (spaced_words v))"
      by (subst expand_loop.simps) simp
    with 2(1) show ?thesis
      by (subst expand_loop.simps) simp
  qed
qed

lemma expand_loop_bounded:
  assumes "ranked defs rank"
  shows "bounded defs rank k (references (split_ws dim) False) \<Longrightarrow>
     \<exists>result. expand_loop defs dim = Some result"
proof (induction k arbitrary: dim)
  case 0
  then show ?case by (rule expand_loop_unexpanded)
next
  case (Suc k)
  have start: "\<not> dangling (split_ws []) False"
    "bounded defs rank k (references (split_ws []) False)"
    by simp_all
  from expand_words_step [OF assms split_ws_words Suc.prems start]
  consider e where "expandDefnames defs dim = Inl e"
    | r' where "expandDefnames defs dim = Inr r'"
      "bounded defs rank k (references (split_ws r') False)"
    by (auto simp: expandDefnames_def)
  then show ?case
  proof cases
    case 1
    then show ?thesis
      by (subst expand_loop.simps) simp
  next
    case 2
    from Suc.IH [OF 2(2)] obtain result where "expand_loop defs r' = Some result"
      by blast
    with 2(1) show ?thesis
      by (subst expand_loop.simps) simp
  qed
qed

lemma bounded_exists: "\<exists>k. bounded defs rank k names"
proof (induction names)
  case Nil
  then show ?case by simp
next
  case (Cons name names)
  then obtain k where "bounded defs rank k names"
    by blast
  then have "bounded defs rank (max k (Suc (rank name))) (name # names)"
    by (auto simp: bounded_def max_def)
  then show ?case by blast
qed

text \<open>
  Claim C5, as the code has it. When the definitions that get replaced do not lead back
  to themselves, the loop at the start of \<open>listFiles\<close> returns, with the expanded
  dimension or with the exception of a name that has no definition, for every dimension.
\<close>

theorem expand_loop_terminates:
  assumes "ranked defs rank"
  shows "\<exists>result. expand_loop defs dim = Some result"
proof -
  obtain k where "bounded defs rank k (references (split_ws dim) False)"
    using bounded_exists by blast
  then show ?thesis
    by (rule expand_loop_bounded [OF assms])
qed

definition nested_definitions :: definitions where
  "nested_definitions = [''foo'' \<mapsto> ''defname: bar or x'', ''bar'' \<mapsto> ''a or b'']"

definition nesting_rank :: "string \<Rightarrow> nat" where
  "nesting_rank name = (if name = ''foo'' then 1 else 0)"

theorem expand_loop_terminates_witness:
  "ranked nested_definitions nesting_rank \<and>
   (\<exists>result. expand_loop nested_definitions ''defname: foo'' = Some result)"
proof -
  have "ranked nested_definitions nesting_rank"
    unfolding ranked_def split_ws_piece
    by (auto simp: nested_definitions_def nesting_rank_def expands_def expandable_def find_def
        isspace_def split: if_splits)
  then show ?thesis
    using expand_loop_terminates [of nested_definitions nesting_rank "''defname: foo''"]
    by simp
qed

subsection \<open>The set algebra of dimensions\<close>

text \<open>
  The reference semantics of a dimension: an atom denotes the set of the files that the
  service lists for it, \<open>or\<close> the union and \<open>minus\<close> the difference of what its operands
  denote. An exception of the service in an operand is the exception of the dimension,
  the left operand first. A group is listed by the service as it is written.
\<close>

fun denotation :: "samweb \<Rightarrow> expr \<Rightarrow> py_error + string set" where
  "denotation sam (Atom ws) = map_sum id set (sam_listFiles sam (join_words ws))"
| "denotation sam (Group kw e) =
     map_sum id set (sam_listFiles sam (kw @ ''( '' @ last (rpn e) @ '' )''))"
| "denotation sam (Paren e) = denotation sam e"
| "denotation sam (Or a b) =
     (case denotation sam a of
        Inl err \<Rightarrow> Inl err
      | Inr files_a \<Rightarrow>
          (case denotation sam b of
             Inl err \<Rightarrow> Inl err
           | Inr files_b \<Rightarrow> Inr (files_a \<union> files_b)))"
| "denotation sam (Minus a b) =
     (case denotation sam a of
        Inl err \<Rightarrow> Inl err
      | Inr files_a \<Rightarrow>
          (case denotation sam b of
             Inl err \<Rightarrow> Inl err
           | Inr files_b \<Rightarrow> Inr (files_a - files_b)))"

text \<open>
  The dimensions of the set algebra: no group, and no atom that \<open>listFiles\<close> would take
  for a \<open>with limit\<close> clause.
\<close>

fun set_algebra :: "expr \<Rightarrow> bool" where
  "set_algebra (Atom ws) \<longleftrightarrow> \<not> startswith (join_words ws) ''with limit''"
| "set_algebra (Group kw e) \<longleftrightarrow> False"
| "set_algebra (Paren e) \<longleftrightarrow> set_algebra e"
| "set_algebra (Or a b) \<longleftrightarrow> set_algebra a \<and> set_algebra b"
| "set_algebra (Minus a b) \<longleftrightarrow> set_algebra a \<and> set_algebra b"

text \<open>
  A dimension with no \<open>defname:\<close> leaves the expansion loop with one blank before each
  of its words.
\<close>

definition normalised :: "string \<Rightarrow> string" where
  "normalised dim = spaced_words (split_ws dim)"

text \<open>
  The cache agrees with the service: a cached dimension refers to a set object that
  exists and holds the files the service lists for the dimension.
\<close>

definition consistent :: "samweb \<Rightarrow> sam_state \<Rightarrow> bool" where
  "consistent sam st \<longleftrightarrow>
     (\<forall>item files. samcache st item = Some files \<longrightarrow>
        files < next_ref st \<and>
        (\<exists>listed. sam_listFiles sam item = Inr listed \<and> set (heap st files) = set listed))"

text \<open>A later state keeps the set objects of an earlier one.\<close>

definition keeps :: "sam_state \<Rightarrow> sam_state \<Rightarrow> bool" where
  "keeps st st' \<longleftrightarrow> next_ref st \<le> next_ref st' \<and> (\<forall>r < next_ref st. heap st' r = heap st r)"

lemma keeps_refl: "keeps st st"
  by (simp add: keeps_def)

lemma keeps_trans: "keeps st st' \<Longrightarrow> keeps st' st'' \<Longrightarrow> keeps st st''"
  by (auto simp: keeps_def)

lemma eval_rpn_append:
  "eval_rpn choice sam (xs @ ys) stack st =
     (case eval_rpn choice sam xs stack st of
        (Inl e, st') \<Rightarrow> (Inl e, st')
      | (Inr stack', st') \<Rightarrow> eval_rpn choice sam ys stack' st')"
  by (induction xs arbitrary: stack st) (auto split: prod.splits sum.splits)

lemma eval_operand:
  assumes "item \<noteq> ''or''" "item \<noteq> ''minus''" "\<not> startswith item ''with limit''"
    and "consistent sam st"
  shows "case sam_listFiles sam item of
      Inl err \<Rightarrow> eval_item choice sam item stack st = (Inl err, st)
    | Inr listed \<Rightarrow>
        (\<exists>files st'. eval_item choice sam item stack st = (Inr (files # stack), st') \<and>
           set (heap st' files) = set listed \<and> consistent sam st' \<and>
           files < next_ref st' \<and> keeps st st')"
proof (cases "samcache st item")
  case None
  show ?thesis
  proof (cases "sam_listFiles sam item")
    case (Inl err)
    with None assms(1-3) show ?thesis
      by (simp add: eval_item_def)
  next
    case (Inr listed)
    let ?st = "st\<lparr>heap := (heap st)(next_ref st := remdups listed),
      next_ref := Suc (next_ref st),
      samcache := (samcache st)(item \<mapsto> next_ref st)\<rparr>"
    have "eval_item choice sam item stack st = (Inr (next_ref st # stack), ?st)"
      using None Inr assms(1-3) by (simp add: eval_item_def new_set_def)
    moreover have "consistent sam ?st"
      using assms(4) Inr unfolding consistent_def by (auto simp: less_Suc_eq)
    moreover have "keeps st ?st"
      by (simp add: keeps_def)
    ultimately show ?thesis
      using Inr by simp
  qed
next
  case (Some files)
  with assms(4) obtain listed where "files < next_ref st"
    "sam_listFiles sam item = Inr listed" "set (heap st files) = set listed"
    unfolding consistent_def by blast
  moreover have "eval_item choice sam item stack st = (Inr (files # stack), st)"
    using Some assms(1-3) by (simp add: eval_item_def)
  ultimately show ?thesis
    using assms(4) keeps_refl by auto
qed

lemma eval_or:
  assumes "consistent sam st"
  shows "\<exists>files st'.
     eval_item choice sam ''or'' (set1 # set2 # stack) st = (Inr (files # stack), st') \<and>
     set (heap st' files) = set (heap st set2) \<union> set (heap st set1) \<and>
     consistent sam st' \<and> files < next_ref st' \<and> keeps st st'"
proof -
  let ?st = "st\<lparr>heap := (heap st)(next_ref st := remdups (heap st set1 @ heap st set2)),
    next_ref := Suc (next_ref st)\<rparr>"
  have "eval_item choice sam ''or'' (set1 # set2 # stack) st = (Inr (next_ref st # stack), ?st)"
    by (simp add: eval_item_def new_set_def)
  moreover have "consistent sam ?st"
    using assms unfolding consistent_def by (auto simp: less_Suc_eq)
  moreover have "keeps st ?st"
    by (simp add: keeps_def)
  ultimately show ?thesis
    by auto
qed

lemma eval_minus:
  assumes "consistent sam st"
  shows "\<exists>files st'.
     eval_item choice sam ''minus'' (set1 # set2 # stack) st = (Inr (files # stack), st') \<and>
     set (heap st' files) = set (heap st set2) - set (heap st set1) \<and>
     consistent sam st' \<and> files < next_ref st' \<and> keeps st st'"
proof -
  let ?st = "st\<lparr>heap := (heap st)
      (next_ref st := filter (\<lambda>f. f \<notin> set (heap st set1)) (heap st set2)),
    next_ref := Suc (next_ref st)\<rparr>"
  have "eval_item choice sam ''minus'' (set1 # set2 # stack) st =
      (Inr (next_ref st # stack), ?st)"
    by (simp add: eval_item_def new_set_def)
  moreover have "consistent sam ?st"
    using assms unfolding consistent_def by (auto simp: less_Suc_eq)
  moreover have "keeps st ?st"
    by (simp add: keeps_def)
  ultimately show ?thesis
    by auto
qed

lemma eval_operator:
  assumes op: "op = ''or'' \<or> op = ''minus''"
    and a: "denotation sam a = Inr files_a" and b: "denotation sam b = Inr files_b"
    and run_a: "\<And>stack rest st. consistent sam st \<Longrightarrow>
      \<exists>files st'. eval_rpn choice sam (rpn a @ rest) stack st =
          eval_rpn choice sam rest (files # stack) st' \<and>
        set (heap st' files) = files_a \<and> consistent sam st' \<and> files < next_ref st' \<and>
        keeps st st'"
    and run_b: "\<And>stack rest st. consistent sam st \<Longrightarrow>
      \<exists>files st'. eval_rpn choice sam (rpn b @ rest) stack st =
          eval_rpn choice sam rest (files # stack) st' \<and>
        set (heap st' files) = files_b \<and> consistent sam st' \<and> files < next_ref st' \<and>
        keeps st st'"
    and st: "consistent sam st"
  shows "\<exists>files st'. eval_rpn choice sam (rpn a @ rpn b @ op # rest) stack st =
        eval_rpn choice sam rest (files # stack) st' \<and>
      set (heap st' files) = (if op = ''or'' then files_a \<union> files_b else files_a - files_b) \<and>
      consistent sam st' \<and> files < next_ref st' \<and> keeps st st'"
proof -
  from run_a [OF st, of "rpn b @ op # rest" stack]
  obtain fa st1 where
    1: "eval_rpn choice sam (rpn a @ rpn b @ op # rest) stack st =
        eval_rpn choice sam (rpn b @ op # rest) (fa # stack) st1"
    and fa: "set (heap st1 fa) = files_a" "fa < next_ref st1"
    and st1: "consistent sam st1" "keeps st st1"
    by blast
  from run_b [OF st1(1), of "op # rest" "fa # stack"]
  obtain fb st2 where
    2: "eval_rpn choice sam (rpn b @ op # rest) (fa # stack) st1 =
        eval_rpn choice sam (op # rest) (fb # fa # stack) st2"
    and fb: "set (heap st2 fb) = files_b"
    and st2: "consistent sam st2" "keeps st1 st2"
    by blast
  have fa2: "set (heap st2 fa) = files_a"
    using fa st2(2) by (simp add: keeps_def)
  from op show ?thesis
  proof
    assume or: "op = ''or''"
    from eval_or [OF st2(1), of choice fb fa stack]
    obtain f st3 where
      3: "eval_item choice sam ''or'' (fb # fa # stack) st2 = (Inr (f # stack), st3)"
      and f: "set (heap st3 f) = set (heap st2 fa) \<union> set (heap st2 fb)" "f < next_ref st3"
      and st3: "consistent sam st3" "keeps st2 st3"
      by blast
    have "eval_rpn choice sam (rpn a @ rpn b @ op # rest) stack st =
        eval_rpn choice sam rest (f # stack) st3"
      using 1 2 3 unfolding or by simp
    moreover have "keeps st st3"
      using st1(2) st2(2) st3(2) keeps_trans by blast
    ultimately show ?thesis
      using f fa2 fb st3(1) or by auto
  next
    assume minus: "op = ''minus''"
    from eval_minus [OF st2(1), of choice fb fa stack]
    obtain f st3 where
      3: "eval_item choice sam ''minus'' (fb # fa # stack) st2 = (Inr (f # stack), st3)"
      and f: "set (heap st3 f) = set (heap st2 fa) - set (heap st2 fb)" "f < next_ref st3"
      and st3: "consistent sam st3" "keeps st2 st3"
      by blast
    have "eval_rpn choice sam (rpn a @ rpn b @ op # rest) stack st =
        eval_rpn choice sam rest (f # stack) st3"
      using 1 2 3 unfolding minus by simp
    moreover have "keeps st st3"
      using st1(2) st2(2) st3(2) keeps_trans by blast
    ultimately show ?thesis
      using f fa2 fb st3(1) minus by auto
  qed
qed

text \<open>
  The evaluation of the reverse Polish notation of a dimension raises what the
  reference semantics raises, or pushes a set object that holds what it denotes.
\<close>

definition evaluates ::
  "(fileset \<Rightarrow> nat) \<Rightarrow> samweb \<Rightarrow> expr \<Rightarrow> bool" where
  "evaluates choice sam e \<longleftrightarrow>
     (case denotation sam e of
        Inl err \<Rightarrow>
          (\<forall>stack rest st. consistent sam st \<longrightarrow>
             (\<exists>st'. eval_rpn choice sam (rpn e @ rest) stack st = (Inl err, st')))
      | Inr fileset \<Rightarrow>
          (\<forall>stack rest st. consistent sam st \<longrightarrow>
             (\<exists>files st'. eval_rpn choice sam (rpn e @ rest) stack st =
                 eval_rpn choice sam rest (files # stack) st' \<and>
               set (heap st' files) = fileset \<and> consistent sam st' \<and>
               files < next_ref st' \<and> keeps st st')))"

lemma evaluates_operator:
  assumes op: "op = ''or'' \<or> op = ''minus''"
    and a: "evaluates choice sam a" and b: "evaluates choice sam b"
    and conc: "consistent sam st"
  shows "case denotation sam a of
      Inl err \<Rightarrow> \<exists>st'. eval_rpn choice sam (rpn a @ rpn b @ op # rest) stack st = (Inl err, st')
    | Inr files_a \<Rightarrow>
        (case denotation sam b of
           Inl err \<Rightarrow>
             \<exists>st'. eval_rpn choice sam (rpn a @ rpn b @ op # rest) stack st = (Inl err, st')
         | Inr files_b \<Rightarrow>
             (\<exists>files st'. eval_rpn choice sam (rpn a @ rpn b @ op # rest) stack st =
                 eval_rpn choice sam rest (files # stack) st' \<and>
               set (heap st' files) =
                 (if op = ''or'' then files_a \<union> files_b else files_a - files_b) \<and>
               consistent sam st' \<and> files < next_ref st' \<and> keeps st st'))"
proof (cases "denotation sam a")
  case (Inl err)
  with a conc show ?thesis
    unfolding evaluates_def by simp
next
  case fa: (Inr files_a)
  with a have run_a: "\<And>stack rest st. consistent sam st \<Longrightarrow>
      \<exists>files st'. eval_rpn choice sam (rpn a @ rest) stack st =
          eval_rpn choice sam rest (files # stack) st' \<and>
        set (heap st' files) = files_a \<and> consistent sam st' \<and> files < next_ref st' \<and>
        keeps st st'"
    unfolding evaluates_def by simp
  show ?thesis
  proof (cases "denotation sam b")
    case (Inl err)
    from run_a [OF conc, of "rpn b @ op # rest" stack]
    obtain files st1 where
      1: "eval_rpn choice sam (rpn a @ rpn b @ op # rest) stack st =
          eval_rpn choice sam (rpn b @ op # rest) (files # stack) st1"
      and st1: "consistent sam st1"
      by blast
    from b Inl st1 obtain st' where
      "eval_rpn choice sam (rpn b @ op # rest) (files # stack) st1 = (Inl err, st')"
      unfolding evaluates_def by fastforce
    with 1 fa Inl show ?thesis by simp
  next
    case fb: (Inr files_b)
    with b have run_b: "\<And>stack rest st. consistent sam st \<Longrightarrow>
        \<exists>files st'. eval_rpn choice sam (rpn b @ rest) stack st =
            eval_rpn choice sam rest (files # stack) st' \<and>
          set (heap st' files) = files_b \<and> consistent sam st' \<and> files < next_ref st' \<and>
          keeps st st'"
      unfolding evaluates_def by simp
    from eval_operator [OF op fa fb run_a run_b conc, of rest stack]
    show ?thesis
      using fa fb by simp
  qed
qed

lemma eval_dimension:
  assumes "well_formed e" "set_algebra e"
  shows "evaluates choice sam e"
  using assms
proof (induction e)
  case (Atom ws)
  let ?item = "join_words ws"
  from Atom have item: "?item \<noteq> ''or''" "?item \<noteq> ''minus''" "\<not> startswith ?item ''with limit''"
    using join_plain_words [of ws] by simp_all
  show ?case
  proof (cases "sam_listFiles sam ?item")
    case (Inl err)
    have "eval_rpn choice sam (rpn (Atom ws) @ rest) stack st = (Inl err, st)"
      if "consistent sam st" for stack rest st
      using eval_operand [OF item that, of choice stack] Inl by simp
    with Inl show ?thesis
      unfolding evaluates_def by auto
  next
    case (Inr listed)
    have "\<exists>files st'. eval_rpn choice sam (rpn (Atom ws) @ rest) stack st =
          eval_rpn choice sam rest (files # stack) st' \<and>
        set (heap st' files) = set listed \<and> consistent sam st' \<and> files < next_ref st' \<and>
        keeps st st'"
      if "consistent sam st" for stack rest st
    proof -
      from eval_operand [OF item that, of choice stack] Inr
      obtain files st' where
        "eval_item choice sam ?item stack st = (Inr (files # stack), st')"
        "set (heap st' files) = set listed" "consistent sam st'" "files < next_ref st'"
        "keeps st st'"
        by auto
      then show ?thesis
        by (intro exI [of _ files] exI [of _ st']) simp
    qed
    with Inr show ?thesis
      unfolding evaluates_def by simp
  qed
next
  case (Group kw e)
  then show ?case by simp
next
  case (Paren e)
  then have "evaluates choice sam e"
    by simp
  then show ?case
    unfolding evaluates_def denotation.simps rpn.simps .
next
  case (Or a b)
  then have ab: "evaluates choice sam a" "evaluates choice sam b"
    by simp_all
  have "''or'' = ''or'' \<or> ''or'' = ''minus''"
    by simp
  from evaluates_operator [OF this ab] show ?case
    unfolding evaluates_def by (auto split: sum.splits)
next
  case (Minus a b)
  then have ab: "evaluates choice sam a" "evaluates choice sam b"
    by simp_all
  have "''minus'' = ''or'' \<or> ''minus'' = ''minus''"
    by simp
  from evaluates_operator [OF this ab] show ?case
    unfolding evaluates_def by (auto split: sum.splits)
qed

text \<open>
  Claim C3. Take a dimension with no \<open>defname:\<close> and no \<open>with limit\<close> clause whose words
  are those of a well-formed dimension \<open>e\<close> of the set algebra: atoms, \<open>or\<close> and \<open>minus\<close>
  of equal precedence that associate to the left, and parentheses. Starting from an empty
  cache, \<open>listFiles\<close> returns the set that the reference semantics gives to \<open>e\<close>, or raises
  the exception that the service raises for the first atom it cannot list.
\<close>

theorem listFiles_set_algebra:
  assumes "well_formed e" and "set_algebra e"
    and "''defname:'' \<notin> set (split_ws dim)"
    and "\<not> sublist ''with limit'' (normalised dim)"
    and "prepared_words (normalised dim) = tokens e"
  shows "returned (listFiles choice sam dim empty_cache) = Some (denotation sam e)"
proof -
  have ex: "expand_loop (sam_definitions sam) dim = Some (Inr (normalised dim))"
    using assms(3) by (simp add: expand_loop_plain normalised_def)
  have tk: "tokenizeRPN (normalised dim) = Inr (rpn e)"
    using assms(1, 4, 5) by (rule tokenizeRPN_dimension)
  have start: "consistent sam empty_cache"
    by (simp add: consistent_def empty_cache_def)
  have run: "evaluates choice sam e"
    using assms(1, 2) by (rule eval_dimension)
  show ?thesis
  proof (cases "denotation sam e")
    case (Inl err)
    with run have "\<And>stack rest st. consistent sam st \<Longrightarrow>
        \<exists>st'. eval_rpn choice sam (rpn e @ rest) stack st = (Inl err, st')"
      unfolding evaluates_def by simp
    from this [OF start, of "[]" "[]"] obtain st' where
      "eval_rpn choice sam (rpn e @ []) [] empty_cache = (Inl err, st')"
      by blast
    then show ?thesis
      using ex tk Inl by (simp add: listFiles_def returned_def empty_cache_def)
  next
    case (Inr fileset)
    with run have "\<And>stack rest st. consistent sam st \<Longrightarrow>
        \<exists>files st'. eval_rpn choice sam (rpn e @ rest) stack st =
            eval_rpn choice sam rest (files # stack) st' \<and>
          set (heap st' files) = fileset \<and> consistent sam st' \<and> files < next_ref st' \<and>
          keeps st st'"
      unfolding evaluates_def by simp
    from this [OF start, of "[]" "[]"] obtain files st' where
      "eval_rpn choice sam (rpn e @ []) [] empty_cache = eval_rpn choice sam [] [files] st'"
      "set (heap st' files) = fileset"
      by blast
    then show ?thesis
      using ex tk Inr by (simp add: listFiles_def returned_def empty_cache_def)
  qed
qed

text \<open>A service with three dimensions.\<close>

definition three_dimensions :: samweb where
  "three_dimensions =
     \<lparr>sam_listFiles =
        (\<lambda>dim. if dim = ''A'' then Inr [''a1'', ''a2'']
               else if dim = ''B'' then Inr [''b1'', ''a2'']
               else if dim = ''C'' then Inr [''a1'']
               else Inl (SamError dim)),
      sam_definitions = Map.empty\<rparr>"

theorem listFiles_set_algebra_witness:
  "well_formed (Minus (Paren (Or (Atom [''A'']) (Atom [''B'']))) (Atom [''C''])) \<and>
   set_algebra (Minus (Paren (Or (Atom [''A'']) (Atom [''B'']))) (Atom [''C''])) \<and>
   ''defname:'' \<notin> set (split_ws ''(A or B) minus C'') \<and>
   \<not> sublist ''with limit'' (normalised ''(A or B) minus C'') \<and>
   prepared_words (normalised ''(A or B) minus C'') =
     tokens (Minus (Paren (Or (Atom [''A'']) (Atom [''B'']))) (Atom [''C''])) \<and>
   returned (listFiles (\<lambda>files. 0) three_dimensions ''(A or B) minus C'' empty_cache) =
     Some (Inr {''a2'', ''b1''})"
proof -
  let ?e = "Minus (Paren (Or (Atom [''A'']) (Atom [''B'']))) (Atom [''C''])"
  have wf: "well_formed ?e"
    by (simp add: plain_word_def is_word_def isspace_def)
  have sa: "set_algebra ?e"
    by (simp add: startswith_def)
  have nd: "''defname:'' \<notin> set (split_ws ''(A or B) minus C'')"
    by (simp add: isspace_def)
  have norm: "normalised ''(A or B) minus C'' = '' (A or B) minus C''"
    by (simp add: normalised_def spaced_words_def isspace_def)
  have nl: "\<not> sublist ''with limit'' (normalised ''(A or B) minus C'')"
    unfolding norm by (simp add: find_index_None [symmetric])
  have pw: "prepared_words (normalised ''(A or B) minus C'') = tokens ?e"
    unfolding norm by (simp add: prepared_words_def isspace_def)
  have "denotation three_dimensions ?e = Inr {''a2'', ''b1''}"
    by (auto simp: three_dimensions_def)
  then show ?thesis
    using wf sa nd nl pw listFiles_set_algebra [OF wf sa nd nl pw, of "\<lambda>files. 0" three_dimensions]
    by simp
qed

end
